theory Spec2Isabelle
  imports Main
begin

section \<open>Errors raised by the storage layer, the codec and the tree\<close>

text \<open>
  Every \<^verbatim>\<open>throw new Error(...)\<close> of the sources is one constructor, named after the
  error kinds of the specification. \<open>MalformedPage\<close> is the \<^verbatim>\<open>SyntaxError\<close> of
  \<^verbatim>\<open>JSON.parse\<close>, and \<open>MissingValues\<close> the error of \<^verbatim>\<open>splitLeaf\<close> on a leaf
  without values. \<open>Unmodelled\<close> is not an error of the source: it marks the behaviour
  of JavaScript that this model does not trace (the tree working on a page whose JSON value
  is not a node, or following an array slot that does not exist).
\<close>

datatype error =
    CorruptStore
  | PageNotFound
  | InvalidPageSize
  | PageOverflow
  | EmptyPage
  | MalformedPage
  | InvalidOrder
  | MissingValues
  | Unmodelled

section \<open>The page store (\<^verbatim>\<open>src/storage/fileManager.ts\<close>)\<close>

text \<open>
  A \<^verbatim>\<open>Buffer\<close> and the content of the backing file are lists of bytes; a byte is a
  \<^typ>\<open>char\<close>. \<open>alloc n\<close> is \<^verbatim>\<open>Buffer.alloc(n)\<close>: \<open>n\<close> zero bytes.
\<close>

type_synonym buffer = "char list"

definition NUL :: char where
  "NUL = CHR 0x00"

definition alloc :: "nat \<Rightarrow> buffer" where
  "alloc n = replicate n NUL"

text \<open>
  \<^verbatim>\<open>fs.writeSync(fd, data, 0, data.length, offset)\<close>: a positional write. It replaces
  the bytes of the file from \<open>offset\<close> on, and extends the file when the write ends
  beyond its end; a gap between the old end and \<open>offset\<close> reads as zero bytes. Writing no
  byte leaves the file as it is.
\<close>

definition writeSync :: "buffer \<Rightarrow> buffer \<Rightarrow> nat \<Rightarrow> buffer" where
  "writeSync f data offset =
     (if data = [] then f
      else take offset f @ replicate (offset - length f) NUL @ data
             @ drop (offset + length data) f)"

text \<open>
  \<^verbatim>\<open>fs.writeFileSync(path, data, {flag: "r+"})\<close>: the file is opened for reading and
  writing without truncation, and \<open>data\<close> is written from position 0.
\<close>

definition writeFileSync :: "buffer \<Rightarrow> buffer \<Rightarrow> buffer" where
  "writeFileSync f data = writeSync f data 0"

text \<open>
  \<^verbatim>\<open>fs.readSync(fd, buffer, 0, len, offset)\<close>: the bytes that the file holds from
  \<open>offset\<close> on, at most \<open>len\<close> of them. Their number is the \<^verbatim>\<open>bytesRead\<close> of the
  source.
\<close>

definition readSync :: "buffer \<Rightarrow> nat \<Rightarrow> nat \<Rightarrow> buffer" where
  "readSync f len offset = take len (drop offset f)"

text \<open>
  The state of a \<^verbatim>\<open>FileManager\<close>. \<^verbatim>\<open>filePath\<close> and \<^verbatim>\<open>fd\<close> name the same
  file, whose content is the field \<open>fileBytes\<close>.
\<close>

record FileManager =
  pageSize :: nat
  nextPageId :: nat
  fileBytes :: buffer

text \<open>
  The constructor. \<open>existing\<close> is the content of the file at the path, \<open>None\<close> when
  there is no such file (it is then created empty). In JavaScript \<^verbatim>\<open>size % 0\<close> is
  \<^verbatim>\<open>NaN\<close>, which differs from 0, so a page size of 0 is rejected too.
\<close>

definition newFileManager :: "buffer option \<Rightarrow> nat \<Rightarrow> error + FileManager" where
  "newFileManager existing ps =
     (let content = (case existing of None \<Rightarrow> [] | Some c \<Rightarrow> c);
          size = length content
      in if ps = 0 \<or> size mod ps \<noteq> 0 then Inl CorruptStore
         else Inr \<lparr>pageSize = ps, nextPageId = size div ps, fileBytes = content\<rparr>)"

definition getPageSize :: "FileManager \<Rightarrow> nat" where
  "getPageSize fm = pageSize fm"

definition allocatePage :: "FileManager \<Rightarrow> nat \<times> FileManager" where
  "allocatePage fm =
     (let ident = nextPageId fm;
          offset = ident * pageSize fm;
          empty = alloc (pageSize fm);
          f1 = writeFileSync (fileBytes fm) empty;
          f2 = writeSync f1 empty offset
      in (ident, fm\<lparr>nextPageId := ident + 1, fileBytes := f2\<rparr>))"

definition readPage :: "FileManager \<Rightarrow> nat \<Rightarrow> error + buffer" where
  "readPage fm ident =
     (let offset = ident * pageSize fm;
          got = readSync (fileBytes fm) (pageSize fm) offset;
          bytesRead = length got
      in if bytesRead = 0 then Inl PageNotFound
         else Inr (got @ replicate (pageSize fm - bytesRead) NUL))"

definition writePage :: "FileManager \<Rightarrow> nat \<Rightarrow> buffer \<Rightarrow> error + FileManager" where
  "writePage fm ident data =
     (if length data \<noteq> pageSize fm then Inl InvalidPageSize
      else Inr (fm\<lparr>fileBytes := writeSync (fileBytes fm) data (ident * pageSize fm)\<rparr>))"

text \<open>
  A caller's view of the store: a sequence of \<^verbatim>\<open>allocatePage()\<close> and
  \<^verbatim>\<open>writePage(id, data)\<close> calls. \<open>store_call\<close> gives the state after one call; a call
  that throws leaves the state as it was. \<open>writes_allocated\<close> says that every write of
  the sequence names an identifier that was allocated before the call.
\<close>

datatype store_op = Allocate | Write nat buffer

fun store_call :: "FileManager \<Rightarrow> store_op \<Rightarrow> FileManager" where
  "store_call fm Allocate = snd (allocatePage fm)"
| "store_call fm (Write ident data) =
     (case writePage fm ident data of Inl e \<Rightarrow> fm | Inr fm' \<Rightarrow> fm')"

fun writes_allocated :: "FileManager \<Rightarrow> store_op list \<Rightarrow> bool" where
  "writes_allocated fm [] = True"
| "writes_allocated fm (Allocate # ops) = writes_allocated (store_call fm Allocate) ops"
| "writes_allocated fm (Write ident data # ops) =
     (ident < nextPageId fm \<and> writes_allocated (store_call fm (Write ident data)) ops)"

text \<open>
  The layout invariant of the store: the page size is positive and the file holds exactly
  \<open>nextPageId\<close> pages.
\<close>

definition store_inv :: "FileManager \<Rightarrow> bool" where
  "store_inv fm \<longleftrightarrow> 0 < pageSize fm \<and> length (fileBytes fm) = nextPageId fm * pageSize fm"

text \<open>
  A file of whole pages: the page size is positive and divides the length of the file.
\<close>

definition aligned :: "FileManager \<Rightarrow> bool" where
  "aligned fm \<longleftrightarrow> 0 < pageSize fm \<and> length (fileBytes fm) mod pageSize fm = 0"

section \<open>JSON text (\<^verbatim>\<open>JSON.stringify\<close> and \<^verbatim>\<open>JSON.parse\<close>)\<close>

text \<open>
  The codec of \<^verbatim>\<open>src/storage/page.ts\<close> serialises a node with \<^verbatim>\<open>JSON.stringify\<close>
  and reads it back with \<^verbatim>\<open>JSON.parse\<close>. Both belong to the platform; they are
  modelled here after ECMA-262 and ECMA-404.

  Text is modelled by its UTF-8 bytes: \<^verbatim>\<open>Buffer.from(json, "utf8")\<close> and
  \<^verbatim>\<open>buffer.toString("utf8")\<close> are the identity on it, and a string value of a node is
  the list of the bytes of its UTF-8 encoding. A number is an \<^typ>\<open>int\<close> when its
  lexeme has neither fraction nor exponent; otherwise \<open>JInexact\<close> keeps the lexeme and
  the floating-point value is not modelled.
\<close>

datatype json =
    JNull
  | JBool bool
  | JNumber int
  | JInexact string
  | JString string
  | JArray "json list"
  | JObject "(string \<times> json) list"

subsection \<open>Characters\<close>

definition DQUOTE :: char where
  "DQUOTE = CHR 0x22"

definition BACKSLASH :: char where
  "BACKSLASH = CHR 0x5C"

definition code :: "char \<Rightarrow> nat" where
  "code c = of_char c"

definition is_digit :: "char \<Rightarrow> bool" where
  "is_digit c \<longleftrightarrow> 48 \<le> code c \<and> code c \<le> 57"

definition digit_char :: "nat \<Rightarrow> char" where
  "digit_char d = char_of (48 + d)"

definition digit_val :: "char \<Rightarrow> nat" where
  "digit_val c = code c - 48"

definition hex_char :: "nat \<Rightarrow> char" where
  "hex_char d = (if d < 10 then char_of (48 + d) else char_of (87 + d))"

definition hex_val :: "char \<Rightarrow> nat option" where
  "hex_val c =
     (let n = code c
      in if 48 \<le> n \<and> n \<le> 57 then Some (n - 48)
         else if 97 \<le> n \<and> n \<le> 102 then Some (n - 87)
         else if 65 \<le> n \<and> n \<le> 70 then Some (n - 55)
         else None)"

text \<open>The white space of the JSON grammar: space, tab, line feed, carriage return.\<close>

definition is_ws :: "char \<Rightarrow> bool" where
  "is_ws c \<longleftrightarrow> code c = 32 \<or> code c = 9 \<or> code c = 10 \<or> code c = 13"

definition skip_ws :: "string \<Rightarrow> string" where
  "skip_ws s = dropWhile is_ws s"

subsection \<open>Serialisation\<close>

text \<open>Decimal digits of a natural number, most significant first.\<close>

fun digits :: "nat \<Rightarrow> string" where
  "digits n = (if n < 10 then [digit_char n] else digits (n div 10) @ [digit_char (n mod 10)])"

declare digits.simps [simp del]

definition show_int :: "int \<Rightarrow> string" where
  "show_int i = (if i < 0 then CHR ''-'' # digits (nat (- i)) else digits (nat i))"

text \<open>
  \<^verbatim>\<open>QuoteJSONString\<close>: the quote, the backslash and the control characters below
  U+0020 are escaped, the five with a short form by that form and the others as
  \<^verbatim>\<open>\u00xx\<close> in lower-case hexadecimal; every other byte stands for itself.
\<close>

definition quote_char :: "char \<Rightarrow> string" where
  "quote_char c =
     (if c = DQUOTE then [BACKSLASH, DQUOTE]
      else if c = BACKSLASH then [BACKSLASH, BACKSLASH]
      else if code c = 8 then [BACKSLASH, CHR ''b'']
      else if code c = 12 then [BACKSLASH, CHR ''f'']
      else if code c = 10 then [BACKSLASH, CHR ''n'']
      else if code c = 13 then [BACKSLASH, CHR ''r'']
      else if code c = 9 then [BACKSLASH, CHR ''t'']
      else if code c < 32 then
        [BACKSLASH, CHR ''u'', CHR ''0'', CHR ''0'', hex_char (code c div 16), hex_char (code c mod 16)]
      else [c])"

definition quote :: "string \<Rightarrow> string" where
  "quote s = DQUOTE # concat (map quote_char s) @ [DQUOTE]"

text \<open>Items separated by commas.\<close>

fun commas :: "string list \<Rightarrow> string" where
  "commas [] = []"
| "commas [x] = x"
| "commas (x # y # ys) = x @ CHR '','' # commas (y # ys)"

text \<open>
  \<^verbatim>\<open>JSON.stringify(value)\<close> without indentation. For \<open>JInexact\<close> the lexeme is
  printed; no node holds such a value.
\<close>

fun stringify :: "json \<Rightarrow> string" where
  "stringify JNull = ''null''"
| "stringify (JBool b) = (if b then ''true'' else ''false'')"
| "stringify (JNumber i) = show_int i"
| "stringify (JInexact l) = l"
| "stringify (JString s) = quote s"
| "stringify (JArray vs) = CHR ''['' # commas (map stringify vs) @ '']''"
| "stringify (JObject ms) =
     CHR ''{'' # commas (map (\<lambda>(k, v). quote k @ CHR '':'' # stringify v) ms) @ ''}''"

subsection \<open>Parsing\<close>

text \<open>
  A number lexeme: an optional minus sign, an integer part (\<open>0\<close>, or a non-zero digit
  followed by digits), an optional fraction and an optional exponent. The result is the
  value and the rest of the text.
\<close>

definition decimal :: "string \<Rightarrow> nat" where
  "decimal ds = foldl (\<lambda>a c. 10 * a + digit_val c) 0 ds"

definition parse_int_part :: "string \<Rightarrow> (string \<times> string) option" where
  "parse_int_part s =
     (case s of
        [] \<Rightarrow> None
      | c # r \<Rightarrow>
          if c = CHR ''0'' then Some ([c], r)
          else if is_digit c then Some (c # takeWhile is_digit r, dropWhile is_digit r)
          else None)"

definition parse_fraction :: "string \<Rightarrow> (string \<times> string) option" where
  "parse_fraction s =
     (case s of
        c # r \<Rightarrow>
          if c = CHR ''.'' then
            (if takeWhile is_digit r = [] then None
             else Some (c # takeWhile is_digit r, dropWhile is_digit r))
          else Some ([], s)
      | [] \<Rightarrow> Some ([], s))"

definition parse_exponent :: "string \<Rightarrow> (string \<times> string) option" where
  "parse_exponent s =
     (case s of
        c # r \<Rightarrow>
          if c = CHR ''e'' \<or> c = CHR ''E'' then
            (let (sign, r') = (case r of
                                 d # t \<Rightarrow> if d = CHR ''+'' \<or> d = CHR ''-'' then ([d], t) else ([], r)
                               | [] \<Rightarrow> ([], r))
             in if takeWhile is_digit r' = [] then None
                else Some (c # sign @ takeWhile is_digit r', dropWhile is_digit r'))
          else Some ([], s)
      | [] \<Rightarrow> Some ([], s))"

definition parse_number :: "string \<Rightarrow> (json \<times> string) option" where
  "parse_number s =
     (let (sign, s1) = (case s of
                          c # r \<Rightarrow> if c = CHR ''-'' then ([c], r) else ([], s)
                        | [] \<Rightarrow> ([], s))
      in case parse_int_part s1 of
           None \<Rightarrow> None
         | Some (ip, s2) \<Rightarrow>
             (case parse_fraction s2 of
                None \<Rightarrow> None
              | Some (fp, s3) \<Rightarrow>
                  (case parse_exponent s3 of
                     None \<Rightarrow> None
                   | Some (ep, s4) \<Rightarrow>
                       if fp = [] \<and> ep = [] then
                         Some (JNumber (if sign = [] then int (decimal ip) else - int (decimal ip)), s4)
                       else Some (JInexact (sign @ ip @ fp @ ep), s4))))"

text \<open>
  The UTF-8 bytes of the code unit of a \<^verbatim>\<open>\uXXXX\<close> escape. Each escape is encoded
  on its own, so an escaped surrogate pair is kept as two units of three bytes.
\<close>

definition utf8_unit :: "nat \<Rightarrow> string" where
  "utf8_unit u =
     (if u < 128 then [char_of u]
      else if u < 2048 then [char_of (192 + u div 64), char_of (128 + u mod 64)]
      else [char_of (224 + u div 4096), char_of (128 + (u div 64) mod 64), char_of (128 + u mod 64)])"

definition unescape :: "char \<Rightarrow> char option" where
  "unescape e =
     (if e = DQUOTE then Some DQUOTE
      else if e = BACKSLASH then Some BACKSLASH
      else if e = CHR ''/'' then Some CHR ''/''
      else if e = CHR ''b'' then Some (char_of (8::nat))
      else if e = CHR ''f'' then Some (char_of (12::nat))
      else if e = CHR ''n'' then Some (char_of (10::nat))
      else if e = CHR ''r'' then Some (char_of (13::nat))
      else if e = CHR ''t'' then Some (char_of (9::nat))
      else None)"

definition hex4 :: "char \<Rightarrow> char \<Rightarrow> char \<Rightarrow> char \<Rightarrow> nat option" where
  "hex4 a b c d =
     (case (hex_val a, hex_val b, hex_val c, hex_val d) of
        (Some x, Some y, Some z, Some w) \<Rightarrow> Some (((x * 16 + y) * 16 + z) * 16 + w)
      | _ \<Rightarrow> None)"

text \<open>
  The characters of a string after its opening quote, up to the closing quote. A raw
  control character below U+0020 is a syntax error.
\<close>

fun parse_chars :: "string \<Rightarrow> (string \<times> string) option" where
  "parse_chars [] = None"
| "parse_chars (c # cs) =
     (if c = DQUOTE then Some ([], cs)
      else if c = BACKSLASH then
        (case cs of
           [] \<Rightarrow> None
         | e # r \<Rightarrow>
             if e = CHR ''u'' then
               (case r of
                  h1 # h2 # h3 # h4 # r' \<Rightarrow>
                    (case hex4 h1 h2 h3 h4 of
                       None \<Rightarrow> None
                     | Some u \<Rightarrow> map_option (\<lambda>(t, rest). (utf8_unit u @ t, rest)) (parse_chars r'))
                | _ \<Rightarrow> None)
             else
               (case unescape e of
                  None \<Rightarrow> None
                | Some x \<Rightarrow> map_option (\<lambda>(t, rest). (x # t, rest)) (parse_chars r)))
      else if code c < 32 then None
      else map_option (\<lambda>(t, rest). (c # t, rest)) (parse_chars cs))"

text \<open>
  A value, the elements of an array after its opening bracket, and the members of an
  object after its opening brace; each returns what it parsed and the rest of the text.
  A list of elements or members continues only on a shorter text than it started on.
  Every text satisfies this (\<open>parse_value_shorter\<close>, \<open>parse_elements_unguarded\<close> and
  \<open>parse_members_unguarded\<close> below); written into the definition, it makes the
  recursion well-founded.
\<close>

function parse_value :: "string \<Rightarrow> (json \<times> string) option"
  and parse_elements :: "string \<Rightarrow> (json list \<times> string) option"
  and parse_members :: "string \<Rightarrow> ((string \<times> json) list \<times> string) option"
where
  "parse_value s =
     (case skip_ws s of
        [] \<Rightarrow> None
      | c # cs \<Rightarrow>
          if c = CHR ''['' then
            (case skip_ws cs of
               [] \<Rightarrow> None
             | d # r \<Rightarrow>
                 if d = CHR '']'' then Some (JArray [], r)
                 else map_option (\<lambda>(vs, rest). (JArray vs, rest)) (parse_elements cs))
          else if c = CHR ''{'' then
            (case skip_ws cs of
               [] \<Rightarrow> None
             | d # r \<Rightarrow>
                 if d = CHR ''}'' then Some (JObject [], r)
                 else map_option (\<lambda>(ms, rest). (JObject ms, rest)) (parse_members cs))
          else if c = DQUOTE then map_option (\<lambda>(t, rest). (JString t, rest)) (parse_chars cs)
          else if take 4 (c # cs) = ''true'' then Some (JBool True, drop 4 (c # cs))
          else if take 5 (c # cs) = ''false'' then Some (JBool False, drop 5 (c # cs))
          else if take 4 (c # cs) = ''null'' then Some (JNull, drop 4 (c # cs))
          else parse_number (c # cs))"
| "parse_elements s =
     (case parse_value s of
        None \<Rightarrow> None
      | Some (v, r) \<Rightarrow>
          (case skip_ws r of
             [] \<Rightarrow> None
           | d # r' \<Rightarrow>
               if d = CHR '','' then
                 (if length r' < length s
                  then map_option (\<lambda>(vs, rest). (v # vs, rest)) (parse_elements r')
                  else None)
               else if d = CHR '']'' then Some ([v], r')
               else None))"
| "parse_members s =
     (case skip_ws s of
        [] \<Rightarrow> None
      | q # cs \<Rightarrow>
          if q \<noteq> DQUOTE then None
          else
            (case parse_chars cs of
               None \<Rightarrow> None
             | Some (k, r1) \<Rightarrow>
                 (case skip_ws r1 of
                    [] \<Rightarrow> None
                  | colon # r2 \<Rightarrow>
                      if colon \<noteq> CHR '':'' \<or> \<not> length r2 < length s then None
                      else
                        (case parse_value r2 of
                           None \<Rightarrow> None
                         | Some (v, r3) \<Rightarrow>
                             (case skip_ws r3 of
                                [] \<Rightarrow> None
                              | d # r4 \<Rightarrow>
                                  if d = CHR '','' then
                                    (if length r4 < length s
                                     then map_option (\<lambda>(ms, rest). ((k, v) # ms, rest))
                                            (parse_members r4)
                                     else None)
                                  else if d = CHR ''}'' then Some ([(k, v)], r4)
                                  else None)))))"
  by pat_completeness auto

termination
proof -
  have shorter: "length cs < length s" if "skip_ws s = c # cs" for s c cs
    using length_dropWhile_le[of is_ws s] that by (simp add: skip_ws_def)
  show ?thesis
    by (relation "measures
          [\<lambda>x. case x of Inl s \<Rightarrow> length s | Inr (Inl s) \<Rightarrow> length s | Inr (Inr s) \<Rightarrow> length s,
           \<lambda>x. case x of Inl s \<Rightarrow> 0 | Inr (Inl s) \<Rightarrow> 1 | Inr (Inr s) \<Rightarrow> 1]")
       (auto dest: shorter)
qed

text \<open>\<^verbatim>\<open>JSON.parse(text)\<close>: one value, with nothing but white space after it.\<close>

definition JSON_parse :: "string \<Rightarrow> json option" where
  "JSON_parse s =
     (case parse_value s of
        None \<Rightarrow> None
      | Some (v, r) \<Rightarrow> if skip_ws r = [] then Some v else None)"

declare parse_value.simps [simp del] parse_elements.simps [simp del] parse_members.simps [simp del]

text \<open>The values all of whose numbers are integers.\<close>

fun exact :: "json \<Rightarrow> bool" where
  "exact (JInexact l) = False"
| "exact (JArray vs) = (\<forall>v \<in> set vs. exact v)"
| "exact (JObject ms) = (\<forall>m \<in> set ms. exact (snd m))"
| "exact v = True"

text \<open>What may follow a value inside a text: nothing, a comma, or a closing bracket or brace.\<close>

definition value_end :: "string \<Rightarrow> bool" where
  "value_end rest \<longleftrightarrow>
     (case rest of [] \<Rightarrow> True | c # r \<Rightarrow> c = CHR '','' \<or> c = CHR '']'' \<or> c = CHR ''}'')"

text \<open>What may follow the digits of an integer lexeme.\<close>

definition number_end :: "string \<Rightarrow> bool" where
  "number_end rest \<longleftrightarrow>
     (case rest of [] \<Rightarrow> True
      | c # r \<Rightarrow> \<not> is_digit c \<and> c \<noteq> CHR ''.'' \<and> c \<noteq> CHR ''e'' \<and> c \<noteq> CHR ''E'')"

text \<open>A character that can start a value.\<close>

definition opener :: "char \<Rightarrow> bool" where
  "opener c \<longleftrightarrow> \<not> is_ws c \<and> c \<noteq> CHR '']'' \<and> c \<noteq> CHR ''}''"

text \<open>The text of one member of an object.\<close>

definition member_text :: "string \<times> json \<Rightarrow> string" where
  "member_text = (\<lambda>(k, v). quote k @ CHR '':'' # stringify v)"

section \<open>The node codec (\<^verbatim>\<open>src/storage/page.ts\<close>)\<close>

text \<open>
  A field of JavaScript that may be \<^verbatim>\<open>undefined\<close>, \<^verbatim>\<open>null\<close> or a value. Reading an
  array beyond its end gives \<^verbatim>\<open>undefined\<close>.
\<close>

datatype 'a nullable = Undefined | Null | Value 'a

definition nth_js :: "'a list \<Rightarrow> nat \<Rightarrow> 'a nullable" where
  "nth_js xs i = (if i < length xs then Value (xs ! i) else Undefined)"

text \<open>
  \<^verbatim>\<open>BTreeNodePage\<close>. The optional \<^verbatim>\<open>values\<close> is \<open>None\<close> when undefined. Page
  identifiers are natural numbers. Keys are integers, as the interface of the database
  has them; a JavaScript number that is not an integer (a fraction, \<^verbatim>\<open>NaN\<close>, an
  infinity) is outside the model, and so is the exponent notation in which JavaScript
  prints an integer from \<open>10\<^sup>2\<^sup>1\<close> on. A string is the list of the bytes of its
  UTF-8 encoding.
\<close>

record BTreeNodePage =
  id_p :: nat
  isLeaf :: bool
  keys :: "int list"
  children :: "nat list"
  values_p :: "string list option"
  nextLeaf :: "nat nullable"

text \<open>
  The JSON value of a node, as \<^verbatim>\<open>JSON.stringify\<close> sees it: the properties in the order
  of the object literals of the source, those that are \<^verbatim>\<open>undefined\<close> left out.
\<close>

definition node_json :: "BTreeNodePage \<Rightarrow> json" where
  "node_json n =
     JObject
       ([(''id'', JNumber (int (id_p n))),
         (''isLeaf'', JBool (isLeaf n)),
         (''keys'', JArray (map JNumber (keys n))),
         (''children'', JArray (map (\<lambda>c. JNumber (int c)) (children n)))]
        @ (case values_p n of None \<Rightarrow> [] | Some vs \<Rightarrow> [(''values'', JArray (map JString vs))])
        @ (case nextLeaf n of
             Undefined \<Rightarrow> []
           | Null \<Rightarrow> [(''nextLeaf'', JNull)]
           | Value p \<Rightarrow> [(''nextLeaf'', JNumber (int p))]))"

definition encodePage :: "BTreeNodePage \<Rightarrow> nat \<Rightarrow> error + buffer" where
  "encodePage node ps =
     (let json = stringify (node_json node);
          data = json
      in if length data > ps then Inl PageOverflow
         else Inr (data @ replicate (ps - length data) NUL))"

text \<open>\<^verbatim>\<open>.replace(/\0+$/g, "")\<close>: the text without its trailing zero bytes.\<close>

definition strip_zeros :: "string \<Rightarrow> string" where
  "strip_zeros s = rev (dropWhile (\<lambda>c. c = NUL) (rev s))"

text \<open>
  \<^verbatim>\<open>!json.trim()\<close>: the text is empty once the white space and line terminators of
  ECMA-262 are trimmed from its ends, that is, it consists of them only. In UTF-8 these
  are the bytes 9 to 13 and 32, and the encodings of U+00A0, U+1680, U+2000 to U+200A,
  U+2028, U+2029, U+202F, U+205F, U+3000 and U+FEFF.
\<close>

fun blank :: "string \<Rightarrow> bool" where
  "blank [] = True"
| "blank (c # cs) =
     (if (9 \<le> code c \<and> code c \<le> 13) \<or> code c = 32 then blank cs
      else if code c = 194 then
        (case cs of d # r \<Rightarrow> code d = 160 \<and> blank r | _ \<Rightarrow> False)
      else if code c = 225 then
        (case cs of d # e # r \<Rightarrow> code d = 154 \<and> code e = 128 \<and> blank r | _ \<Rightarrow> False)
      else if code c = 226 then
        (case cs of
           d # e # r \<Rightarrow>
             ((code d = 128 \<and> ((128 \<le> code e \<and> code e \<le> 138) \<or> code e = 168
                                  \<or> code e = 169 \<or> code e = 175))
              \<or> (code d = 129 \<and> code e = 159)) \<and> blank r
         | _ \<Rightarrow> False)
      else if code c = 227 then
        (case cs of d # e # r \<Rightarrow> code d = 128 \<and> code e = 128 \<and> blank r | _ \<Rightarrow> False)
      else if code c = 239 then
        (case cs of d # e # r \<Rightarrow> code d = 187 \<and> code e = 191 \<and> blank r | _ \<Rightarrow> False)
      else False)"

text \<open>
  \<^verbatim>\<open>decodePage\<close> returns what \<^verbatim>\<open>JSON.parse\<close> returns: the cast
  \<^verbatim>\<open>as BTreeNodePage\<close> checks nothing.
\<close>

definition decodePage :: "buffer \<Rightarrow> error + json" where
  "decodePage buffer =
     (let json = strip_zeros buffer
      in if blank json then Inl EmptyPage
         else (case JSON_parse json of None \<Rightarrow> Inl MalformedPage | Some v \<Rightarrow> Inr v))"

text \<open>The expression \<^verbatim>\<open>decodePage(encodePage(node, pageSize))\<close>.\<close>

definition decode_encoded :: "BTreeNodePage \<Rightarrow> nat \<Rightarrow> error + json" where
  "decode_encoded node ps =
     (case encodePage node ps of Inl e \<Rightarrow> Inl e | Inr buffer \<Rightarrow> decodePage buffer)"

text \<open>
  The node that a JSON value is, when it has the shape of one. A property that occurs
  twice has its last value.
\<close>

definition property :: "(string \<times> json) list \<Rightarrow> string \<Rightarrow> json option" where
  "property ms k = map_of (rev ms) k"

definition json_nat :: "json \<Rightarrow> nat option" where
  "json_nat v = (case v of JNumber i \<Rightarrow> if 0 \<le> i then Some (nat i) else None | _ \<Rightarrow> None)"

definition json_int :: "json \<Rightarrow> int option" where
  "json_int v = (case v of JNumber i \<Rightarrow> Some i | _ \<Rightarrow> None)"

definition json_bool :: "json \<Rightarrow> bool option" where
  "json_bool v = (case v of JBool b \<Rightarrow> Some b | _ \<Rightarrow> None)"

definition json_string :: "json \<Rightarrow> string option" where
  "json_string v = (case v of JString s \<Rightarrow> Some s | _ \<Rightarrow> None)"

definition json_array :: "(json \<Rightarrow> 'a option) \<Rightarrow> json \<Rightarrow> 'a list option" where
  "json_array f v = (case v of JArray vs \<Rightarrow> those (map f vs) | _ \<Rightarrow> None)"

definition asBTreeNodePage :: "json \<Rightarrow> BTreeNodePage option" where
  "asBTreeNodePage v =
     (case v of
        JObject ms \<Rightarrow>
          (case (Option.bind (property ms ''id'') json_nat,
                 Option.bind (property ms ''isLeaf'') json_bool,
                 Option.bind (property ms ''keys'') (json_array json_int),
                 Option.bind (property ms ''children'') (json_array json_nat),
                 (case property ms ''values'' of
                    None \<Rightarrow> Some None
                  | Some w \<Rightarrow> map_option Some (json_array json_string w)),
                 (case property ms ''nextLeaf'' of
                    None \<Rightarrow> Some Undefined
                  | Some JNull \<Rightarrow> Some Null
                  | Some w \<Rightarrow> map_option Value (json_nat w))) of
             (Some i, Some l, Some ks, Some cs, Some vals, Some nl) \<Rightarrow>
               Some \<lparr>id_p = i, isLeaf = l, keys = ks, children = cs, values_p = vals, nextLeaf = nl\<rparr>
           | _ \<Rightarrow> None)
      | _ \<Rightarrow> None)"

section \<open>The B+ tree (\<^verbatim>\<open>src/index/bptree.ts\<close>)\<close>

record InsertResult =
  promotedKey :: int
  rightPageId :: nat

text \<open>
  The state of a \<^verbatim>\<open>BPlusTree\<close>. The tree is the only user of its file manager, whose
  state is kept inside.
\<close>

record BPlusTree =
  rootPageId :: nat
  order :: nat
  fileManager :: FileManager

definition readNode :: "FileManager \<Rightarrow> nat \<Rightarrow> error + BTreeNodePage" where
  "readNode fm ident =
     (case readPage fm ident of
        Inl e \<Rightarrow> Inl e
      | Inr buffer \<Rightarrow>
          (case decodePage buffer of
             Inl e \<Rightarrow> Inl e
           | Inr v \<Rightarrow> (case asBTreeNodePage v of None \<Rightarrow> Inl Unmodelled | Some node \<Rightarrow> Inr node)))"

definition writeNode :: "FileManager \<Rightarrow> BTreeNodePage \<Rightarrow> error + FileManager" where
  "writeNode fm node =
     (case encodePage node (getPageSize fm) of
        Inl e \<Rightarrow> Inl e
      | Inr buffer \<Rightarrow> writePage fm (id_p node) buffer)"

text \<open>The constructor: a fresh empty leaf becomes the root.\<close>

definition newBPlusTree :: "FileManager \<Rightarrow> nat \<Rightarrow> error + BPlusTree" where
  "newBPlusTree fm ord =
     (if ord < 3 then Inl InvalidOrder
      else
        (let (ident, fm1) = allocatePage fm;
             root = \<lparr>id_p = ident, isLeaf = True, keys = [], children = [],
                     values_p = Some [], nextLeaf = Null\<rparr>
         in case writeNode fm1 root of
              Inl e \<Rightarrow> Inl e
            | Inr fm2 \<Rightarrow> Inr \<lparr>rootPageId = ident, order = ord, fileManager = fm2\<rparr>))"

text \<open>
  \<^verbatim>\<open>findChildIndex\<close>: the loop \<^verbatim>\<open>while (i < keys.length && key >= keys[i]) i++\<close>,
  started at 0.
\<close>

function findChildIndex_loop :: "nat \<Rightarrow> int list \<Rightarrow> int \<Rightarrow> nat" where
  "findChildIndex_loop i ks key =
     (if i < length ks \<and> key \<ge> ks ! i then findChildIndex_loop (i + 1) ks key else i)"
  by pat_completeness auto
termination
  by (relation "measure (\<lambda>(i, ks, key). length ks - i)") auto

declare findChildIndex_loop.simps [simp del]

definition findChildIndex :: "int list \<Rightarrow> int \<Rightarrow> nat" where
  "findChildIndex ks key = findChildIndex_loop 0 ks key"

text \<open>
  The position loop of \<^verbatim>\<open>insertIntoLeaf\<close> and \<^verbatim>\<open>insertIntoInternal\<close>:
  \<^verbatim>\<open>while (pos < keys.length && keys[pos] < key) pos++\<close>, started at 0.
\<close>

function position_loop :: "nat \<Rightarrow> int list \<Rightarrow> int \<Rightarrow> nat" where
  "position_loop pos ks key =
     (if pos < length ks \<and> ks ! pos < key then position_loop (pos + 1) ks key else pos)"
  by pat_completeness auto
termination
  by (relation "measure (\<lambda>(pos, ks, key). length ks - pos)") auto

declare position_loop.simps [simp del]

text \<open>\<^verbatim>\<open>xs.splice(pos, 0, x)\<close>: insertion at a position, at the end when beyond it.\<close>

definition splice_in :: "nat \<Rightarrow> 'a \<Rightarrow> 'a list \<Rightarrow> 'a list" where
  "splice_in pos x xs = take pos xs @ x # drop pos xs"

text \<open>\<^verbatim>\<open>keys.findIndex((k) => k === key)\<close>; \<open>None\<close> is the result \<open>-1\<close>.\<close>

fun findIndex :: "int \<Rightarrow> int list \<Rightarrow> nat option" where
  "findIndex key [] = None"
| "findIndex key (k # ks) = (if k = key then Some 0 else map_option Suc (findIndex key ks))"

text \<open>
  The recursive descents read pages that name further pages, so nothing bounds them in
  general (the pages may form a cycle). They take a bound on the number of pages
  visited; \<open>None\<close> is the answer of a descent that needs more.
\<close>

fun searchRecursive :: "nat \<Rightarrow> FileManager \<Rightarrow> nat \<Rightarrow> int \<Rightarrow> (error + string nullable) option" where
  "searchRecursive 0 fm nodeId key = None"
| "searchRecursive (Suc fuel) fm nodeId key =
     (case readNode fm nodeId of
        Inl e \<Rightarrow> Some (Inl e)
      | Inr node \<Rightarrow>
          if isLeaf node then
            (case values_p node of
               None \<Rightarrow> Some (Inr Null)
             | Some vs \<Rightarrow>
                 (case findIndex key (keys node) of
                    None \<Rightarrow> Some (Inr Null)
                  | Some idx \<Rightarrow> Some (Inr (nth_js vs idx))))
          else
            (case nth_js (children node) (findChildIndex (keys node) key) of
               Value childId \<Rightarrow> searchRecursive fuel fm childId key
             | _ \<Rightarrow> Some (Inl Unmodelled)))"

definition search :: "nat \<Rightarrow> BPlusTree \<Rightarrow> int \<Rightarrow> (error + string nullable) option" where
  "search fuel t key = searchRecursive fuel (fileManager t) (rootPageId t) key"

text \<open>\<^verbatim>\<open>findLeafForKey\<close>: the loop runs on the node read last.\<close>

fun findLeafForKey_loop :: "nat \<Rightarrow> FileManager \<Rightarrow> BTreeNodePage \<Rightarrow> int \<Rightarrow> (error + nat) option" where
  "findLeafForKey_loop 0 fm node key = None"
| "findLeafForKey_loop (Suc fuel) fm node key =
     (if isLeaf node then Some (Inr (id_p node))
      else
        (case nth_js (children node) (findChildIndex (keys node) key) of
           Value childId \<Rightarrow>
             (case readNode fm childId of
                Inl e \<Rightarrow> Some (Inl e)
              | Inr node' \<Rightarrow> findLeafForKey_loop fuel fm node' key)
         | _ \<Rightarrow> Some (Inl Unmodelled)))"

definition findLeafForKey :: "nat \<Rightarrow> FileManager \<Rightarrow> nat \<Rightarrow> int \<Rightarrow> (error + nat) option" where
  "findLeafForKey fuel fm nodeId key =
     (case readNode fm nodeId of
        Inl e \<Rightarrow> Some (Inl e)
      | Inr node \<Rightarrow> findLeafForKey_loop fuel fm node key)"

text \<open>
  The \<^verbatim>\<open>for\<close> loop of \<^verbatim>\<open>range\<close> over the keys of one leaf, from index \<open>i\<close> on. The
  first component of the result says whether the loop returned from \<^verbatim>\<open>range\<close> (a key
  beyond the end of the range was met).
\<close>

type_synonym row = "int \<times> string nullable"

fun range_for :: "int list \<Rightarrow> nat \<Rightarrow> string list \<Rightarrow> int \<Rightarrow> int \<Rightarrow> row list \<Rightarrow> bool \<times> row list" where
  "range_for [] i vs start stop result = (False, result)"
| "range_for (k # ks) i vs start stop result =
     (if k > stop then (True, result)
      else range_for ks (i + 1) vs start stop
             (if k \<ge> start then result @ [(k, nth_js vs i)] else result))"

fun range_loop :: "nat \<Rightarrow> FileManager \<Rightarrow> BTreeNodePage \<Rightarrow> int \<Rightarrow> int \<Rightarrow> row list
    \<Rightarrow> (error + row list) option" where
  "range_loop 0 fm node start stop result = None"
| "range_loop (Suc fuel) fm node start stop result =
     (case values_p node of
        None \<Rightarrow> Some (Inr result)
      | Some vs \<Rightarrow>
          if \<not> isLeaf node then Some (Inr result)
          else
            (let (returned, result') = range_for (keys node) 0 vs start stop result
             in if returned then Some (Inr result')
                else
                  (case nextLeaf node of
                     Value next \<Rightarrow>
                       (case readNode fm next of
                          Inl e \<Rightarrow> Some (Inl e)
                        | Inr node' \<Rightarrow> range_loop fuel fm node' start stop result')
                   | _ \<Rightarrow> Some (Inr result'))))"

definition range_tree :: "nat \<Rightarrow> BPlusTree \<Rightarrow> int \<Rightarrow> int \<Rightarrow> (error + row list) option" where
  "range_tree fuel t start stop =
     (case findLeafForKey fuel (fileManager t) (rootPageId t) start of
        None \<Rightarrow> None
      | Some (Inl e) \<Rightarrow> Some (Inl e)
      | Some (Inr leafId) \<Rightarrow>
          (case readNode (fileManager t) leafId of
             Inl e \<Rightarrow> Some (Inl e)
           | Inr node \<Rightarrow> range_loop fuel (fileManager t) node start stop []))"

text \<open>
  \<^verbatim>\<open>splitLeaf\<close>. \<^verbatim>\<open>Math.ceil(n / 2)\<close> is \<open>(n + 1) div 2\<close>. The promoted key
  \<^verbatim>\<open>rightNode.keys[0]\<close> does not exist when the right leaf has no key.
\<close>

definition splitLeaf :: "FileManager \<Rightarrow> BTreeNodePage \<Rightarrow> error + InsertResult option \<times> FileManager" where
  "splitLeaf fm node =
     (case values_p node of
        None \<Rightarrow> Inl MissingValues
      | Some vs \<Rightarrow>
          (let mid = (length (keys node) + 1) div 2;
               rightKeys = drop mid (keys node);
               rightValues = drop mid vs;
               (ident, fm1) = allocatePage fm;
               rightNode = \<lparr>id_p = ident, isLeaf = True, keys = rightKeys, children = [],
                            values_p = Some rightValues,
                            nextLeaf = (case nextLeaf node of Undefined \<Rightarrow> Null | l \<Rightarrow> l)\<rparr>;
               node' = node\<lparr>keys := take mid (keys node), values_p := Some (take mid vs),
                             nextLeaf := Value ident\<rparr>
           in case writeNode fm1 node' of
                Inl e \<Rightarrow> Inl e
              | Inr fm2 \<Rightarrow>
                  (case writeNode fm2 rightNode of
                     Inl e \<Rightarrow> Inl e
                   | Inr fm3 \<Rightarrow>
                       (case rightKeys of
                          [] \<Rightarrow> Inl Unmodelled
                        | k # _ \<Rightarrow> Inr (Some \<lparr>promotedKey = k, rightPageId = ident\<rparr>, fm3)))))"

text \<open>
  \<^verbatim>\<open>insertIntoLeaf\<close>. Overwriting \<^verbatim>\<open>values[pos]\<close> at the end of the values appends;
  beyond the end it would leave holes in the array, which the model does not trace.
\<close>

definition insertIntoLeaf ::
    "nat \<Rightarrow> FileManager \<Rightarrow> BTreeNodePage \<Rightarrow> int \<Rightarrow> string \<Rightarrow> error + InsertResult option \<times> FileManager" where
  "insertIntoLeaf ord fm node key val =
     (let vs = (case values_p node of None \<Rightarrow> [] | Some vs \<Rightarrow> vs);
          pos = position_loop 0 (keys node) key
      in if pos < length (keys node) \<and> keys node ! pos = key then
           (if pos < length vs then
              (case writeNode fm (node\<lparr>values_p := Some (vs[pos := val])\<rparr>) of
                 Inl e \<Rightarrow> Inl e | Inr fm' \<Rightarrow> Inr (None, fm'))
            else if pos = length vs then
              (case writeNode fm (node\<lparr>values_p := Some (vs @ [val])\<rparr>) of
                 Inl e \<Rightarrow> Inl e | Inr fm' \<Rightarrow> Inr (None, fm'))
            else Inl Unmodelled)
         else
           (let node' = node\<lparr>keys := splice_in pos key (keys node),
                              values_p := Some (splice_in pos val vs)\<rparr>
            in if length (keys node') > ord then splitLeaf fm node'
               else (case writeNode fm node' of
                       Inl e \<Rightarrow> Inl e | Inr fm' \<Rightarrow> Inr (None, fm'))))"

text \<open>
  \<^verbatim>\<open>splitInternal\<close>. The promoted key \<^verbatim>\<open>node.keys[midIndex]\<close> does not exist when the
  node has no key.
\<close>

definition splitInternal :: "FileManager \<Rightarrow> BTreeNodePage \<Rightarrow> error + InsertResult option \<times> FileManager" where
  "splitInternal fm node =
     (let midIndex = length (keys node) div 2;
          leftKeys = take midIndex (keys node);
          rightKeys = drop (midIndex + 1) (keys node);
          leftChildren = take (midIndex + 1) (children node);
          rightChildren = drop (midIndex + 1) (children node);
          node' = node\<lparr>keys := leftKeys, children := leftChildren\<rparr>;
          (ident, fm1) = allocatePage fm;
          rightNode = \<lparr>id_p = ident, isLeaf = False, keys = rightKeys, children = rightChildren,
                       values_p = None, nextLeaf = Null\<rparr>
      in case writeNode fm1 node' of
           Inl e \<Rightarrow> Inl e
         | Inr fm2 \<Rightarrow>
             (case writeNode fm2 rightNode of
                Inl e \<Rightarrow> Inl e
              | Inr fm3 \<Rightarrow>
                  (case nth_js (keys node) midIndex of
                     Value k \<Rightarrow> Inr (Some \<lparr>promotedKey = k, rightPageId = ident\<rparr>, fm3)
                   | _ \<Rightarrow> Inl Unmodelled)))"

text \<open>
  The second half of \<^verbatim>\<open>insertIntoInternal\<close>, after the child has split: the promoted
  key and the new child are inserted, and the node is split when it overflows.
\<close>

definition absorbSplit ::
    "nat \<Rightarrow> FileManager \<Rightarrow> BTreeNodePage \<Rightarrow> InsertResult \<Rightarrow> error + InsertResult option \<times> FileManager" where
  "absorbSplit ord fm node result =
     (let pos = position_loop 0 (keys node) (promotedKey result);
          node' = node\<lparr>keys := splice_in pos (promotedKey result) (keys node),
                        children := splice_in (pos + 1) (rightPageId result) (children node)\<rparr>
      in if length (keys node') > ord then splitInternal fm node'
         else (case writeNode fm node' of
                 Inl e \<Rightarrow> Inl e | Inr fm' \<Rightarrow> Inr (None, fm')))"

fun insertRecursive ::
    "nat \<Rightarrow> nat \<Rightarrow> FileManager \<Rightarrow> nat \<Rightarrow> int \<Rightarrow> string
      \<Rightarrow> (error + InsertResult option \<times> FileManager) option"
  and insertIntoInternal ::
    "nat \<Rightarrow> nat \<Rightarrow> FileManager \<Rightarrow> BTreeNodePage \<Rightarrow> int \<Rightarrow> string
      \<Rightarrow> (error + InsertResult option \<times> FileManager) option"
where
  "insertRecursive 0 ord fm nodeId key val = None"
| "insertRecursive (Suc fuel) ord fm nodeId key val =
     (case readNode fm nodeId of
        Inl e \<Rightarrow> Some (Inl e)
      | Inr node \<Rightarrow>
          if isLeaf node then Some (insertIntoLeaf ord fm node key val)
          else insertIntoInternal fuel ord fm node key val)"
| "insertIntoInternal fuel ord fm node key val =
     (case nth_js (children node) (findChildIndex (keys node) key) of
        Value childId \<Rightarrow>
          (case insertRecursive fuel ord fm childId key val of
             None \<Rightarrow> None
           | Some (Inl e) \<Rightarrow> Some (Inl e)
           | Some (Inr (None, fm1)) \<Rightarrow>
               (case writeNode fm1 node of
                  Inl e \<Rightarrow> Some (Inl e) | Inr fm2 \<Rightarrow> Some (Inr (None, fm2)))
           | Some (Inr (Some result, fm1)) \<Rightarrow> Some (absorbSplit ord fm1 node result))
      | _ \<Rightarrow> Some (Inl Unmodelled))"

definition insert_tree :: "nat \<Rightarrow> BPlusTree \<Rightarrow> int \<Rightarrow> string \<Rightarrow> (error + BPlusTree) option" where
  "insert_tree fuel t key val =
     (case insertRecursive fuel (order t) (fileManager t) (rootPageId t) key val of
        None \<Rightarrow> None
      | Some (Inl e) \<Rightarrow> Some (Inl e)
      | Some (Inr (None, fm1)) \<Rightarrow> Some (Inr (t\<lparr>fileManager := fm1\<rparr>))
      | Some (Inr (Some result, fm1)) \<Rightarrow>
          (let (ident, fm2) = allocatePage fm1;
               newRoot = \<lparr>id_p = ident, isLeaf = False, keys = [promotedKey result],
                          children = [rootPageId t, rightPageId result],
                          values_p = None, nextLeaf = Null\<rparr>
           in case writeNode fm2 newRoot of
                Inl e \<Rightarrow> Some (Inl e)
              | Inr fm3 \<Rightarrow> Some (Inr (t\<lparr>rootPageId := ident, fileManager := fm3\<rparr>))))"

section \<open>The database (\<^verbatim>\<open>src/db/database.ts\<close>)\<close>

text \<open>
  A \<^verbatim>\<open>MiniDB\<close> is a tree of order 4 over a file manager with the default page size
  of 4096 bytes. \<open>existing\<close> is the content of the data file, \<open>None\<close> when there is none.
\<close>

definition newMiniDB :: "buffer option \<Rightarrow> error + BPlusTree" where
  "newMiniDB existing =
     (case newFileManager existing 4096 of
        Inl e \<Rightarrow> Inl e
      | Inr fm \<Rightarrow> newBPlusTree fm 4)"

definition put :: "nat \<Rightarrow> BPlusTree \<Rightarrow> int \<Rightarrow> string \<Rightarrow> (error + BPlusTree) option" where
  "put fuel db key val = insert_tree fuel db key val"

definition get :: "nat \<Rightarrow> BPlusTree \<Rightarrow> int \<Rightarrow> (error + string nullable) option" where
  "get fuel db key = search fuel db key"

definition range_db :: "nat \<Rightarrow> BPlusTree \<Rightarrow> int \<Rightarrow> int \<Rightarrow> (error + row list) option" where
  "range_db fuel db start stop = range_tree fuel db start stop"

text \<open>
  A sequence of \<^verbatim>\<open>put\<close> calls; it stops at the first call that throws or that needs
  more than the bound.
\<close>

fun puts :: "nat \<Rightarrow> BPlusTree \<Rightarrow> (int \<times> string) list \<Rightarrow> (error + BPlusTree) option" where
  "puts fuel db [] = Some (Inr db)"
| "puts fuel db ((k, v) # kvs) =
     (case put fuel db k v of
        None \<Rightarrow> None
      | Some (Inl e) \<Rightarrow> Some (Inl e)
      | Some (Inr db') \<Rightarrow> puts fuel db' kvs)"

text \<open>
  A session: a \<^verbatim>\<open>MiniDB\<close> is opened over the data file and receives a sequence of
  \<^verbatim>\<open>put\<close> calls. \<open>session_root\<close> then reads the root node of the tree and
  \<open>session_get\<close> calls \<^verbatim>\<open>get\<close>. An error is that of the first call that throws.
\<close>

definition session :: "buffer option \<Rightarrow> nat \<Rightarrow> (int \<times> string) list \<Rightarrow> (error + BPlusTree) option" where
  "session existing fuel kvs =
     (case newMiniDB existing of
        Inl e \<Rightarrow> Some (Inl e)
      | Inr db \<Rightarrow> puts fuel db kvs)"

definition session_root ::
    "buffer option \<Rightarrow> nat \<Rightarrow> (int \<times> string) list \<Rightarrow> (error + BTreeNodePage) option" where
  "session_root existing fuel kvs =
     (case session existing fuel kvs of
        None \<Rightarrow> None
      | Some (Inl e) \<Rightarrow> Some (Inl e)
      | Some (Inr db) \<Rightarrow> Some (readNode (fileManager db) (rootPageId db)))"

definition session_get ::
    "buffer option \<Rightarrow> nat \<Rightarrow> (int \<times> string) list \<Rightarrow> int \<Rightarrow> (error + string nullable) option" where
  "session_get existing fuel kvs key =
     (case session existing fuel kvs of
        None \<Rightarrow> None
      | Some (Inl e) \<Rightarrow> Some (Inl e)
      | Some (Inr db) \<Rightarrow> get fuel db key)"

section \<open>Notions used in the proofs\<close>

text \<open>The bytes of page \<open>i\<close> in the file.\<close>

definition page :: "FileManager \<Rightarrow> nat \<Rightarrow> buffer" where
  "page fm i = take (pageSize fm) (drop (i * pageSize fm) (fileBytes fm))"

text \<open>The store after \<^verbatim>\<open>allocatePage()\<close>.\<close>

definition allocated :: "FileManager \<Rightarrow> FileManager" where
  "allocated fm = snd (allocatePage fm)"

text \<open>
  A node fits a page of the store when its JSON text is not longer than the page; the
  store after \<^verbatim>\<open>writeNode(node)\<close> on such a node.
\<close>

definition fits :: "BTreeNodePage \<Rightarrow> FileManager \<Rightarrow> bool" where
  "fits n fm \<longleftrightarrow> length (stringify (node_json n)) \<le> pageSize fm"

definition written :: "FileManager \<Rightarrow> BTreeNodePage \<Rightarrow> FileManager" where
  "written fm n =
     fm\<lparr>fileBytes :=
          writeSync (fileBytes fm)
            (stringify (node_json n)
               @ replicate (pageSize fm - length (stringify (node_json n))) NUL)
            (id_p n * pageSize fm)\<rparr>"

text \<open>The file manager of a \<^verbatim>\<open>MiniDB\<close> over a new, empty file.\<close>

definition fresh_store :: FileManager where
  "fresh_store = \<lparr>pageSize = 4096, nextPageId = 0, fileBytes = []\<rparr>"

section \<open>Properties of the page store\<close>

lemma length_writeSync:
  "data \<noteq> [] \<Longrightarrow> length (writeSync f data off) = max (length f) (off + length data)"
  by (auto simp: writeSync_def)

lemma length_alloc [simp]: "length (alloc n) = n"
  by (simp add: alloc_def)

lemma alloc_eq_Nil [simp]: "alloc n = [] \<longleftrightarrow> n = 0"
  by (simp add: alloc_def)

lemma store_inv_new: "newFileManager existing ps = Inr fm \<Longrightarrow> store_inv fm \<and> pageSize fm = ps"
  by (auto simp: newFileManager_def store_inv_def Let_def split: if_splits option.splits)

lemma store_inv_allocate:
  assumes "store_inv fm"
  shows "store_inv (snd (allocatePage fm))" and "pageSize (snd (allocatePage fm)) = pageSize fm"
    and "nextPageId (snd (allocatePage fm)) = nextPageId fm + 1"
    and "fst (allocatePage fm) = nextPageId fm"
proof -
  from assms have pos: "0 < pageSize fm" and len: "length (fileBytes fm) = nextPageId fm * pageSize fm"
    by (simp_all add: store_inv_def)
  from pos have ne: "alloc (pageSize fm) \<noteq> []" by simp
  have "length (writeSync (writeFileSync (fileBytes fm) (alloc (pageSize fm))) (alloc (pageSize fm))
          (nextPageId fm * pageSize fm)) = nextPageId fm * pageSize fm + pageSize fm"
    using ne len by (simp add: writeFileSync_def length_writeSync)
  then show "store_inv (snd (allocatePage fm))" using pos
    by (simp add: store_inv_def allocatePage_def Let_def)
  show "pageSize (snd (allocatePage fm)) = pageSize fm"
    "nextPageId (snd (allocatePage fm)) = nextPageId fm + 1"
    "fst (allocatePage fm) = nextPageId fm"
    by (simp_all add: allocatePage_def Let_def)
qed

lemma store_inv_write:
  assumes "store_inv fm" and "ident < nextPageId fm" and "writePage fm ident data = Inr fm'"
  shows "store_inv fm'" and "pageSize fm' = pageSize fm" and "nextPageId fm' = nextPageId fm"
proof -
  from assms(3) have len: "length data = pageSize fm"
    and fm': "fm' = fm\<lparr>fileBytes := writeSync (fileBytes fm) data (ident * pageSize fm)\<rparr>"
    by (auto simp: writePage_def split: if_splits)
  from assms(1) len have ne: "data \<noteq> []" by (auto simp: store_inv_def)
  from assms(2) have "Suc ident \<le> nextPageId fm" by simp
  then have "Suc ident * pageSize fm \<le> nextPageId fm * pageSize fm"
    by (rule mult_le_mono1)
  then have "ident * pageSize fm + length data \<le> length (fileBytes fm)"
    using assms(1) len by (simp add: store_inv_def)
  then show "store_inv fm'" using assms(1) ne
    by (simp add: fm' store_inv_def length_writeSync max_def)
  show "pageSize fm' = pageSize fm" "nextPageId fm' = nextPageId fm" by (simp_all add: fm')
qed

lemma store_inv_call:
  assumes "store_inv fm" and "writes_allocated fm (c # ops)"
  shows "store_inv (store_call fm c) \<and> pageSize (store_call fm c) = pageSize fm"
proof (cases c)
  case Allocate
  then show ?thesis using assms(1) store_inv_allocate(1,2)[of fm] by simp
next
  case (Write ident data)
  with assms(2) have alloc: "ident < nextPageId fm" by simp
  show ?thesis
  proof (cases "writePage fm ident data")
    case (Inl e)
    then show ?thesis using assms(1) Write by simp
  next
    case (Inr fm')
    from store_inv_write(1,2)[OF assms(1) alloc Inr] show ?thesis using Write Inr by simp
  qed
qed

lemma store_inv_calls:
  "store_inv fm \<Longrightarrow> writes_allocated fm ops \<Longrightarrow>
     store_inv (foldl store_call fm ops) \<and> pageSize (foldl store_call fm ops) = pageSize fm"
proof (induction ops arbitrary: fm)
  case Nil
  then show ?case by simp
next
  case (Cons c ops)
  from Cons.prems have step: "store_inv (store_call fm c)" "pageSize (store_call fm c) = pageSize fm"
    using store_inv_call by blast+
  from Cons.prems(2) have "writes_allocated (store_call fm c) ops"
    by (cases c) auto
  with Cons.IH[OF step(1)] step(2) show ?case by simp
qed

lemma readPage_aligned:
  assumes "store_inv fm"
  shows "readPage fm ident =
           (if nextPageId fm \<le> ident then Inl PageNotFound
            else Inr (take (pageSize fm) (drop (ident * pageSize fm) (fileBytes fm))))"
proof -
  from assms have pos: "0 < pageSize fm" and len: "length (fileBytes fm) = nextPageId fm * pageSize fm"
    by (simp_all add: store_inv_def)
  show ?thesis
  proof (cases "nextPageId fm \<le> ident")
    case True
    then have "nextPageId fm * pageSize fm \<le> ident * pageSize fm" by (rule mult_le_mono1)
    then show ?thesis using True len by (simp add: readPage_def readSync_def)
  next
    case False
    then have "Suc ident \<le> nextPageId fm" by simp
    then have "Suc ident * pageSize fm \<le> nextPageId fm * pageSize fm" by (rule mult_le_mono1)
    then have "ident * pageSize fm + pageSize fm \<le> length (fileBytes fm)" using len by simp
    then show ?thesis using False pos by (auto simp: readPage_def readSync_def Let_def min_def)
  qed
qed

text \<open>
  Claim C10. After a successful construction, every sequence of \<open>allocatePage\<close> calls and
  of \<open>writePage\<close> calls on allocated identifiers leaves a file whose length is
  \<open>nextPageId * pageSize\<close>, a multiple of the page size; constructing a store over
  that file again succeeds, with the same next identifier.
\<close>

theorem store_length_invariant:
  assumes "newFileManager existing ps = Inr fm0" and "writes_allocated fm0 ops"
  shows "length (fileBytes (foldl store_call fm0 ops))
           = nextPageId (foldl store_call fm0 ops) * pageSize (foldl store_call fm0 ops)
         \<and> length (fileBytes (foldl store_call fm0 ops)) mod ps = 0
         \<and> newFileManager (Some (fileBytes (foldl store_call fm0 ops))) ps
           = Inr \<lparr>pageSize = ps, nextPageId = nextPageId (foldl store_call fm0 ops),
                  fileBytes = fileBytes (foldl store_call fm0 ops)\<rparr>"
proof -
  let ?fm = "foldl store_call fm0 ops"
  from store_inv_new[OF assms(1)] have "store_inv fm0" "pageSize fm0 = ps" by simp_all
  with store_inv_calls[OF _ assms(2)] have inv: "store_inv ?fm" and ps: "pageSize ?fm = ps"
    by simp_all
  from inv ps have len: "length (fileBytes ?fm) = nextPageId ?fm * ps" and pos: "0 < ps"
    by (simp_all add: store_inv_def)
  show ?thesis using len pos ps by (simp add: newFileManager_def)
qed

theorem store_length_invariant_witness:
  "newFileManager None 4 = Inr \<lparr>pageSize = 4, nextPageId = 0, fileBytes = []\<rparr>
   \<and> writes_allocated \<lparr>pageSize = 4, nextPageId = 0, fileBytes = []\<rparr>
        [Allocate, Write 0 ''abcd'', Allocate, Write 1 ''xy'']
   \<and> length (fileBytes (foldl store_call \<lparr>pageSize = 4, nextPageId = 0, fileBytes = []\<rparr>
        [Allocate, Write 0 ''abcd'', Allocate, Write 1 ''xy'']))
       = nextPageId (foldl store_call \<lparr>pageSize = 4, nextPageId = 0, fileBytes = []\<rparr>
        [Allocate, Write 0 ''abcd'', Allocate, Write 1 ''xy'']) * 4"
proof -
  have a: "newFileManager None 4 = Inr \<lparr>pageSize = 4, nextPageId = 0, fileBytes = []\<rparr>"
    by (simp add: newFileManager_def)
  have b: "writes_allocated \<lparr>pageSize = 4, nextPageId = 0, fileBytes = []\<rparr>
        [Allocate, Write 0 ''abcd'', Allocate, Write 1 ''xy'']"
    by code_simp
  have d: "pageSize (foldl store_call \<lparr>pageSize = 4, nextPageId = 0, fileBytes = []\<rparr>
        [Allocate, Write 0 ''abcd'', Allocate, Write 1 ''xy'']) = 4"
    by code_simp
  from store_length_invariant[OF a b] have
    "length (fileBytes (foldl store_call \<lparr>pageSize = 4, nextPageId = 0, fileBytes = []\<rparr>
        [Allocate, Write 0 ''abcd'', Allocate, Write 1 ''xy'']))
       = nextPageId (foldl store_call \<lparr>pageSize = 4, nextPageId = 0, fileBytes = []\<rparr>
        [Allocate, Write 0 ''abcd'', Allocate, Write 1 ''xy'']) *
         pageSize (foldl store_call \<lparr>pageSize = 4, nextPageId = 0, fileBytes = []\<rparr>
        [Allocate, Write 0 ''abcd'', Allocate, Write 1 ''xy''])"
    by (rule conjunct1)
  with a b show ?thesis unfolding d by blast
qed

text \<open>
  Claim C2 at a failing input. On a fresh file with pages of 4 bytes, page 0 is allocated
  and written with \<open>abcd\<close>; the next \<open>allocatePage\<close> overwrites page 0 with zero
  bytes.
\<close>

theorem allocatePage_overwrites_first_page:
  "readPage (foldl store_call \<lparr>pageSize = 4, nextPageId = 0, fileBytes = []\<rparr>
       [Allocate, Write 0 ''abcd'']) 0 = Inr ''abcd''
   \<and> readPage (foldl store_call \<lparr>pageSize = 4, nextPageId = 0, fileBytes = []\<rparr>
       [Allocate, Write 0 ''abcd'', Allocate]) 0 = Inr [NUL, NUL, NUL, NUL]"
  by code_simp

section \<open>Pages under writes and allocations\<close>

lemma readPage_page:
  "store_inv fm \<Longrightarrow> readPage fm i = (if i < nextPageId fm then Inr (page fm i) else Inl PageNotFound)"
  by (simp add: readPage_aligned page_def)

lemma step_le: "i < j \<Longrightarrow> i * ps + ps \<le> j * (ps::nat)"
proof -
  assume "i < j"
  then have "Suc i \<le> j" by simp
  then have "Suc i * ps \<le> j * ps" by (rule mult_le_mono1)
  then show ?thesis by simp
qed

lemma take_drop_writeSync:
  assumes len: "length f = n * ps" and j: "j < n" and d: "length data = ps" and pos: "0 < ps"
  shows "take ps (drop (i * ps) (writeSync f data (j * ps)))
         = (if i = j then data else take ps (drop (i * ps) f))"
proof -
  from step_le[OF j] len have jin: "j * ps + ps \<le> length f" by simp
  from d pos have ne: "data \<noteq> []" by auto
  have w: "writeSync f data (j * ps) = take (j * ps) f @ data @ drop (j * ps + ps) f"
    using jin ne d by (simp add: writeSync_def)
  consider "i < j" | "i = j" | "j < i" by linarith
  then show ?thesis
  proof cases
    case 1
    from step_le[OF 1] have le: "i * ps + ps \<le> j * ps" .
    with jin have "ps \<le> length (drop (i * ps) (take (j * ps) f))" by simp
    then have "take ps (drop (i * ps) (writeSync f data (j * ps)))
               = take ps (drop (i * ps) (take (j * ps) f))"
      using le jin by (simp add: w)
    also have "\<dots> = take ps (drop (i * ps) f)"
      using le by (simp add: drop_take)
    finally show ?thesis using 1 by simp
  next
    case 2
    then show ?thesis using jin d by (simp add: w)
  next
    case 3
    from step_le[OF 3] have le: "j * ps + ps \<le> i * ps" .
    then obtain k where k: "i * ps = j * ps + ps + k" using le_Suc_ex by blast
    have "drop (i * ps) (writeSync f data (j * ps)) = drop k (drop (j * ps + ps) f)"
      using jin d by (simp add: w k)
    also have "\<dots> = drop (i * ps) f" by (simp add: k add.commute)
    finally show ?thesis using 3 by simp
  qed
qed

lemma allocatePage_allocated: "allocatePage fm = (nextPageId fm, allocated fm)"
  by (simp add: allocated_def allocatePage_def Let_def)

lemma allocated_simps [simp]:
  "pageSize (allocated fm) = pageSize fm" "nextPageId (allocated fm) = nextPageId fm + 1"
  by (simp_all add: allocated_def allocatePage_def Let_def)

lemma store_inv_allocated [simp]: "store_inv fm \<Longrightarrow> store_inv (allocated fm)"
  by (simp add: allocated_def store_inv_allocate)

lemma fileBytes_allocated:
  assumes "store_inv fm"
  shows "fileBytes (allocated fm) =
           (if nextPageId fm = 0 then alloc (pageSize fm)
            else alloc (pageSize fm) @ drop (pageSize fm) (fileBytes fm) @ alloc (pageSize fm))"
proof -
  from assms have pos: "0 < pageSize fm" and len: "length (fileBytes fm) = nextPageId fm * pageSize fm"
    by (simp_all add: store_inv_def)
  show ?thesis
  proof (cases "nextPageId fm = 0")
    case True
    with len pos show ?thesis
      by (simp add: allocated_def allocatePage_def Let_def writeFileSync_def writeSync_def)
  next
    case False
    then have "0 < nextPageId fm" by simp
    from step_le[OF this, of "pageSize fm"] len have ge: "pageSize fm \<le> length (fileBytes fm)" by simp
    with len pos False show ?thesis
      by (simp add: allocated_def allocatePage_def Let_def writeFileSync_def writeSync_def)
  qed
qed

lemma page_allocated:
  assumes "store_inv fm" and "i \<le> nextPageId fm"
  shows "page (allocated fm) i = (if i = 0 \<or> i = nextPageId fm then alloc (pageSize fm) else page fm i)"
proof -
  let ?ps = "pageSize fm" and ?n = "nextPageId fm" and ?f = "fileBytes fm"
  from assms have pos: "0 < ?ps" and len: "length ?f = ?n * ?ps"
    by (simp_all add: store_inv_def)
  show ?thesis
  proof (cases "?n = 0")
    case True
    with assms(2) show ?thesis
      by (simp add: page_def fileBytes_allocated[OF assms(1)])
  next
    case False
    then have n0: "0 < ?n" by simp
    from step_le[OF n0, of ?ps] len have ge: "?ps \<le> length ?f" by simp
    have fb: "fileBytes (allocated fm) = alloc ?ps @ drop ?ps ?f @ alloc ?ps"
      using False by (simp add: fileBytes_allocated[OF assms(1)])
    consider "i = 0" | "i = ?n" | "0 < i" "i < ?n" using assms(2) by linarith
    then show ?thesis
    proof cases
      case 1
      then show ?thesis by (simp add: page_def fb)
    next
      case 2
      have "length (alloc ?ps @ drop ?ps ?f) = ?n * ?ps" using ge len by simp
      then have "drop (?n * ?ps) (alloc ?ps @ drop ?ps ?f @ alloc ?ps) = alloc ?ps"
        by (metis append.assoc append_eq_conv_conj)
      then show ?thesis using 2 by (simp add: page_def fb)
    next
      case 3
      from step_le[OF 3(1), of ?ps] have le1: "?ps \<le> i * ?ps" by simp
      then obtain k where k: "i * ?ps = ?ps + k" using le_Suc_ex by blast
      from step_le[OF 3(2), of ?ps] len have le2: "i * ?ps + ?ps \<le> length ?f" by simp
      have "drop (i * ?ps) (alloc ?ps @ drop ?ps ?f @ alloc ?ps) = drop k (drop ?ps ?f @ alloc ?ps)"
        by (simp add: k)
      also have "\<dots> = drop k (drop ?ps ?f) @ alloc ?ps"
        using le2 k by simp
      also have "drop k (drop ?ps ?f) = drop (i * ?ps) ?f" by (simp add: k add.commute)
      finally have d: "drop (i * ?ps) (alloc ?ps @ drop ?ps ?f @ alloc ?ps)
                       = drop (i * ?ps) ?f @ alloc ?ps" .
      have "?ps \<le> length (drop (i * ?ps) ?f)" using le2 by simp
      then have t: "take ?ps (drop (i * ?ps) ?f @ alloc ?ps) = take ?ps (drop (i * ?ps) ?f)"
        by simp
      show ?thesis unfolding page_def fb allocated_simps d t using 3 by simp
    qed
  qed
qed

section \<open>Reading a page\<close>

text \<open>
  What \<open>readPage\<close> returns on any file: it fails exactly when no byte is stored at the
  offset, and pads a shorter read with zero bytes.
\<close>

lemma readPage_cases:
  "readPage fm ident =
     (if pageSize fm = 0 \<or> length (fileBytes fm) \<le> ident * pageSize fm then Inl PageNotFound
      else Inr (take (pageSize fm) (drop (ident * pageSize fm) (fileBytes fm))
                @ replicate (ident * pageSize fm + pageSize fm - length (fileBytes fm)) NUL))"
  by (auto simp: readPage_def readSync_def Let_def min_def)

text \<open>
  The constructor accepts only files of whole pages, and every \<open>allocatePage\<close> and
  \<open>writePage\<close> writes one whole page at a multiple of the page size. So the file of a
  store always consists of whole pages, whatever identifiers the writes name.
\<close>

lemma max_multiple: "(a::nat) mod ps = 0 \<Longrightarrow> b mod ps = 0 \<Longrightarrow> max a b mod ps = 0"
  by (simp add: max_def)

lemma aligned_new: "newFileManager existing ps = Inr fm \<Longrightarrow> aligned fm"
  by (auto simp: newFileManager_def aligned_def Let_def split: if_splits option.splits)

lemma aligned_allocate:
  assumes "aligned fm"
  shows "aligned (snd (allocatePage fm))"
proof -
  from assms have pos: "0 < pageSize fm" and m: "length (fileBytes fm) mod pageSize fm = 0"
    by (simp_all add: aligned_def)
  from pos have ne: "alloc (pageSize fm) \<noteq> []" by simp
  have l1: "length (writeFileSync (fileBytes fm) (alloc (pageSize fm)))
              = max (length (fileBytes fm)) (pageSize fm)"
    using ne by (simp add: writeFileSync_def length_writeSync)
  have m1: "max (length (fileBytes fm)) (pageSize fm) mod pageSize fm = 0"
    by (rule max_multiple) (simp_all add: m)
  have "length (writeSync (writeFileSync (fileBytes fm) (alloc (pageSize fm))) (alloc (pageSize fm))
          (nextPageId fm * pageSize fm))
        = max (max (length (fileBytes fm)) (pageSize fm)) (nextPageId fm * pageSize fm + pageSize fm)"
    using ne l1 by (simp add: length_writeSync)
  moreover have "max (max (length (fileBytes fm)) (pageSize fm))
                   (nextPageId fm * pageSize fm + pageSize fm) mod pageSize fm = 0"
    by (rule max_multiple) (simp_all add: m1)
  ultimately show ?thesis using pos
    by (simp add: aligned_def allocatePage_def Let_def)
qed

lemma aligned_write:
  assumes "aligned fm" and "writePage fm ident data = Inr fm'"
  shows "aligned fm'"
proof -
  from assms(1) have pos: "0 < pageSize fm" and m: "length (fileBytes fm) mod pageSize fm = 0"
    by (simp_all add: aligned_def)
  from assms(2) have len: "length data = pageSize fm"
    and fm': "fm' = fm\<lparr>fileBytes := writeSync (fileBytes fm) data (ident * pageSize fm)\<rparr>"
    by (auto simp: writePage_def split: if_splits)
  from pos len have ne: "data \<noteq> []" by auto
  have "max (length (fileBytes fm)) (ident * pageSize fm + pageSize fm) mod pageSize fm = 0"
    by (rule max_multiple) (simp_all add: m)
  then show ?thesis using pos ne len
    by (simp add: fm' aligned_def length_writeSync)
qed

lemma aligned_call: "aligned fm \<Longrightarrow> aligned (store_call fm c)"
  by (cases c) (auto simp: aligned_allocate aligned_write split: sum.splits)

lemma aligned_calls: "aligned fm \<Longrightarrow> aligned (foldl store_call fm ops)"
  by (induction ops arbitrary: fm) (simp_all add: aligned_call)

lemma readPage_whole_pages:
  assumes "aligned fm"
  shows "readPage fm ident =
           (if length (fileBytes fm) \<le> ident * pageSize fm then Inl PageNotFound
            else Inr (take (pageSize fm) (drop (ident * pageSize fm) (fileBytes fm))))"
    and "\<not> length (fileBytes fm) \<le> ident * pageSize fm
           \<Longrightarrow> ident * pageSize fm + pageSize fm \<le> length (fileBytes fm)"
proof -
  from assms have pos: "0 < pageSize fm" and m: "length (fileBytes fm) mod pageSize fm = 0"
    by (simp_all add: aligned_def)
  from m have "pageSize fm dvd length (fileBytes fm)" by (simp add: mod_eq_0_iff_dvd)
  then obtain k' where "length (fileBytes fm) = pageSize fm * k'" by (rule dvdE)
  then have k: "length (fileBytes fm) = k' * pageSize fm" by (simp add: mult.commute)
  show full: "ident * pageSize fm + pageSize fm \<le> length (fileBytes fm)"
    if "\<not> length (fileBytes fm) \<le> ident * pageSize fm"
  proof -
    from that k pos have "ident < k'" by (simp add: not_le)
    then show ?thesis using step_le[of ident k' "pageSize fm"] k by simp
  qed
  show "readPage fm ident =
           (if length (fileBytes fm) \<le> ident * pageSize fm then Inl PageNotFound
            else Inr (take (pageSize fm) (drop (ident * pageSize fm) (fileBytes fm))))"
  proof (cases "length (fileBytes fm) \<le> ident * pageSize fm")
    case True
    then show ?thesis by (simp add: readPage_def readSync_def)
  next
    case False
    from full[OF False] False pos show ?thesis
      by (auto simp: readPage_def readSync_def Let_def min_def)
  qed
qed

text \<open>
  Claim C8. In every state that a store reaches from its construction by
  \<open>allocatePage\<close> and \<open>writePage\<close> calls, \<open>readPage\<close> fails with \<open>PageNotFound\<close>
  if and only if the offset \<open>ident * pageSize\<close> is at or beyond the end of the file or
  fewer than \<open>pageSize\<close> bytes are stored from that offset on; otherwise it returns
  exactly the \<open>pageSize\<close> bytes stored at that offset.
\<close>

theorem readPage_after_calls:
  assumes "newFileManager existing ps = Inr fm0"
  shows "(let fm = foldl store_call fm0 ops;
              offset = ident * pageSize fm;
              size = length (fileBytes fm)
          in (readPage fm ident = Inl PageNotFound
                \<longleftrightarrow> size \<le> offset \<or> size - offset < pageSize fm)
             \<and> (\<not> (size \<le> offset \<or> size - offset < pageSize fm)
                \<longrightarrow> readPage fm ident = Inr (take (pageSize fm) (drop offset (fileBytes fm)))
                    \<and> length (take (pageSize fm) (drop offset (fileBytes fm))) = pageSize fm))"
proof -
  let ?fm = "foldl store_call fm0 ops"
  have al: "aligned ?fm" using aligned_new[OF assms] by (rule aligned_calls)
  note r = readPage_whole_pages[OF al, of ident]
  have short: "length (fileBytes ?fm) - ident * pageSize ?fm < pageSize ?fm
                 \<longleftrightarrow> length (fileBytes ?fm) \<le> ident * pageSize ?fm"
  proof (cases "length (fileBytes ?fm) \<le> ident * pageSize ?fm")
    case True
    then show ?thesis using al by (simp add: aligned_def)
  next
    case False
    from r(2)[OF False] False show ?thesis by linarith
  qed
  show ?thesis
    unfolding Let_def short using r(1) r(2) by auto
qed

theorem readPage_after_calls_witness:
  "newFileManager None 4 = Inr \<lparr>pageSize = 4, nextPageId = 0, fileBytes = []\<rparr>
   \<and> readPage (foldl store_call \<lparr>pageSize = 4, nextPageId = 0, fileBytes = []\<rparr>
        [Allocate, Allocate, Write 1 ''efgh'', Write 3 ''mnop'']) 1 = Inr ''efgh''
   \<and> readPage (foldl store_call \<lparr>pageSize = 4, nextPageId = 0, fileBytes = []\<rparr>
        [Allocate, Allocate, Write 1 ''efgh'', Write 3 ''mnop'']) 4 = Inl PageNotFound"
proof -
  let ?fm0 = "\<lparr>pageSize = 4, nextPageId = 0, fileBytes = []\<rparr>"
  let ?ops = "[Allocate, Allocate, Write 1 ''efgh'', Write 3 ''mnop'']"
  have a: "newFileManager None 4 = Inr ?fm0"
    by (simp add: newFileManager_def)
  have ps: "pageSize (foldl store_call ?fm0 ?ops) = 4" by code_simp
  have fb: "fileBytes (foldl store_call ?fm0 ?ops)
              = [NUL, NUL, NUL, NUL, CHR ''e'', CHR ''f'', CHR ''g'', CHR ''h'',
                 NUL, NUL, NUL, NUL, CHR ''m'', CHR ''n'', CHR ''o'', CHR ''p'']"
    by code_simp
  from readPage_after_calls[OF a, of ?ops 1]
  have 1: "readPage (foldl store_call ?fm0 ?ops) 1 = Inr ''efgh''"
    unfolding Let_def ps fb by simp
  from readPage_after_calls[OF a, of ?ops 4]
  have 2: "readPage (foldl store_call ?fm0 ?ops) 4 = Inl PageNotFound"
    unfolding Let_def ps fb by simp
  from a 1 2 show ?thesis by blast
qed

section \<open>Properties of the JSON model\<close>

lemma code_simps [simp]: "code DQUOTE = 34" "code BACKSLASH = 92"
  by (simp_all add: code_def DQUOTE_def BACKSLASH_def)

lemma code_eq_iff: "c = d \<longleftrightarrow> code c = code d"
  by (simp add: code_def)

lemma code_less_256 [simp]: "code c < 256"
  by (simp add: code_def)

lemma code_char_of [simp]: "code (char_of (n::nat)) = n mod 256"
  by (simp add: code_def)

lemma char_of_code [simp]: "char_of (code c) = c"
  by (simp add: code_def)

lemma skip_ws_Nil [simp]: "skip_ws [] = []"
  by (simp add: skip_ws_def)

lemma skip_ws_Cons: "skip_ws (c # cs) = (if is_ws c then skip_ws cs else c # cs)"
  by (simp add: skip_ws_def)

subsection \<open>Numbers\<close>

lemma is_digit_digit_char: "d < 10 \<Longrightarrow> is_digit (digit_char d)"
  by (simp add: is_digit_def digit_char_def)

lemma digit_val_digit_char: "d < 10 \<Longrightarrow> digit_val (digit_char d) = d"
  by (simp add: digit_val_def digit_char_def)

lemma digits_not_Nil [simp]: "digits n \<noteq> []"
  by (subst digits.simps) simp

lemma digits_all_digit: "c \<in> set (digits n) \<Longrightarrow> is_digit c"
proof (induction n arbitrary: c rule: digits.induct)
  case (1 n)
  show ?case
  proof (cases "n < 10")
    case True
    with "1.prems" show ?thesis
      by (subst (asm) digits.simps) (simp add: is_digit_digit_char)
  next
    case False
    with "1.prems" have "c \<in> set (digits (n div 10)) \<or> c = digit_char (n mod 10)"
      by (subst (asm) digits.simps) auto
    with "1.IH"[OF False] show ?thesis
      by (auto simp: is_digit_digit_char)
  qed
qed

lemma decimal_snoc: "decimal (ds @ [c]) = 10 * decimal ds + digit_val c"
  by (simp add: decimal_def)

lemma decimal_digits: "decimal (digits n) = n"
proof (induction n rule: digits.induct)
  case (1 n)
  show ?case
  proof (cases "n < 10")
    case True
    then show ?thesis
      by (subst digits.simps) (simp add: decimal_def digit_val_digit_char)
  next
    case False
    with "1.IH" show ?thesis
      by (subst digits.simps) (simp add: decimal_snoc digit_val_digit_char)
  qed
qed

lemma hd_digits_zero: "hd (digits n) = CHR ''0'' \<longleftrightarrow> n = 0"
proof (induction n rule: digits.induct)
  case (1 n)
  show ?case
  proof (cases "n < 10")
    case True
    then show ?thesis
      by (subst digits.simps) (simp add: digit_char_def code_eq_iff[of _ "CHR ''0''"] code_def)
  next
    case False
    then have "n div 10 \<noteq> 0" by simp
    with "1.IH"[OF False] False show ?thesis
      by (subst digits.simps) (simp add: hd_append)
  qed
qed

lemma takeWhile_digits:
  assumes "\<forall>c \<in> set ds. is_digit c" and "number_end rest"
  shows "takeWhile is_digit (ds @ rest) = ds" and "dropWhile is_digit (ds @ rest) = rest"
  using assms
  by (auto simp: takeWhile_append dropWhile_append number_end_def takeWhile_eq_Nil_iff
           dropWhile_eq_self_iff split: list.splits)

lemma parse_int_part_digits:
  assumes "number_end rest"
  shows "parse_int_part (digits n @ rest) = Some (digits n, rest)"
proof (cases "digits n")
  case Nil
  then show ?thesis by simp
next
  case (Cons c r)
  have dig: "\<forall>x \<in> set (c # r). is_digit x" using digits_all_digit[of _ n] Cons by simp
  show ?thesis
  proof (cases "n = 0")
    case True
    then have "digits n = [CHR ''0'']"
      by (subst digits.simps) (simp add: digit_char_def code_eq_iff[of _ "CHR ''0''"] code_def)
    then show ?thesis by (simp add: parse_int_part_def)
  next
    case False
    with hd_digits_zero[of n] Cons have c0: "c \<noteq> CHR ''0''" by simp
    from dig have "\<forall>x \<in> set r. is_digit x" by simp
    from takeWhile_digits[OF this assms] dig c0 show ?thesis
      by (simp add: Cons parse_int_part_def)
  qed
qed

lemma parse_fraction_end: "number_end rest \<Longrightarrow> parse_fraction rest = Some ([], rest)"
  by (auto simp: parse_fraction_def number_end_def split: list.splits)

lemma parse_exponent_end: "number_end rest \<Longrightarrow> parse_exponent rest = Some ([], rest)"
  by (auto simp: parse_exponent_def number_end_def split: list.splits)

lemma hd_digits_not_minus: "hd (digits n) \<noteq> CHR ''-''"
proof -
  have "hd (digits n) \<in> set (digits n)" by simp
  then have "is_digit (hd (digits n))" by (rule digits_all_digit)
  then show ?thesis by (auto simp: is_digit_def code_def)
qed

lemma parse_number_show_int:
  assumes "number_end rest"
  shows "parse_number (show_int i @ rest) = Some (JNumber i, rest)"
proof (cases "i < 0")
  case True
  then show ?thesis
    using parse_int_part_digits[OF assms] parse_fraction_end[OF assms] parse_exponent_end[OF assms]
    by (simp add: parse_number_def show_int_def decimal_digits)
next
  case False
  obtain c r where cr: "digits (nat i) = c # r" by (cases "digits (nat i)") auto
  with hd_digits_not_minus[of "nat i"] have "c \<noteq> CHR ''-''" by simp
  then have "(case digits (nat i) @ rest of [] \<Rightarrow> ([], digits (nat i) @ rest)
               | c # r \<Rightarrow> if c = CHR ''-'' then ([c], r) else ([], digits (nat i) @ rest))
             = ([], digits (nat i) @ rest)"
    by (simp add: cr)
  then show ?thesis
    using False parse_int_part_digits[OF assms] parse_fraction_end[OF assms] parse_exponent_end[OF assms]
    by (simp add: parse_number_def show_int_def decimal_digits)
qed

subsection \<open>Strings\<close>

lemma code_lit [simp]:
  "code (CHR ''0'') = 48"
  "code (CHR ''-'') = 45"
  "code (CHR ''.'') = 46"
  "code (CHR ''e'') = 101"
  "code (CHR ''E'') = 69"
  "code (CHR ''+'') = 43"
  "code (CHR ''u'') = 117"
  "code (CHR ''b'') = 98"
  "code (CHR ''f'') = 102"
  "code (CHR ''n'') = 110"
  "code (CHR ''r'') = 114"
  "code (CHR ''t'') = 116"
  "code (CHR ''/'') = 47"
  "code (CHR ''['') = 91"
  "code (CHR '']'') = 93"
  "code (CHR ''{'') = 123"
  "code (CHR ''}'') = 125"
  "code (CHR '','') = 44"
  "code (CHR '':'') = 58"
  by (simp_all add: code_def)

lemma lit_iff:
  "c = CHR ''0'' \<longleftrightarrow> code c = 48"
  "c = CHR ''-'' \<longleftrightarrow> code c = 45"
  "c = CHR ''.'' \<longleftrightarrow> code c = 46"
  "c = CHR ''e'' \<longleftrightarrow> code c = 101"
  "c = CHR ''E'' \<longleftrightarrow> code c = 69"
  "c = CHR ''+'' \<longleftrightarrow> code c = 43"
  "c = CHR ''u'' \<longleftrightarrow> code c = 117"
  "c = CHR ''b'' \<longleftrightarrow> code c = 98"
  "c = CHR ''f'' \<longleftrightarrow> code c = 102"
  "c = CHR ''n'' \<longleftrightarrow> code c = 110"
  "c = CHR ''r'' \<longleftrightarrow> code c = 114"
  "c = CHR ''t'' \<longleftrightarrow> code c = 116"
  "c = CHR ''/'' \<longleftrightarrow> code c = 47"
  "c = CHR ''['' \<longleftrightarrow> code c = 91"
  "c = CHR '']'' \<longleftrightarrow> code c = 93"
  "c = CHR ''{'' \<longleftrightarrow> code c = 123"
  "c = CHR ''}'' \<longleftrightarrow> code c = 125"
  "c = CHR '','' \<longleftrightarrow> code c = 44"
  "c = CHR '':'' \<longleftrightarrow> code c = 58"
  "c = DQUOTE \<longleftrightarrow> code c = 34" "c = BACKSLASH \<longleftrightarrow> code c = 92"
  by (simp_all add: code_eq_iff[of c])

lemma hex_val_hex_char: "d < 16 \<Longrightarrow> hex_val (hex_char d) = Some d"
  by (simp add: hex_val_def hex_char_def Let_def)

lemma hex_val_zero: "hex_val (CHR ''0'') = Some 0"
  by (simp add: hex_val_def)

lemma hex4_control: "n < 32 \<Longrightarrow> hex4 (CHR ''0'') (CHR ''0'') (hex_char (n div 16)) (hex_char (n mod 16)) = Some n"
  by (simp add: hex4_def hex_val_zero hex_val_hex_char)

lemma parse_chars_quote_char:
  "parse_chars (quote_char c @ s) = map_option (\<lambda>(t, rest). (c # t, rest)) (parse_chars s)"
proof -
  consider "c = DQUOTE" | "c = BACKSLASH" | "code c = 8" | "code c = 12" | "code c = 10"
    | "code c = 13" | "code c = 9"
    | "code c < 32" "code c \<notin> {8, 9, 10, 12, 13}"
    | "32 \<le> code c" "c \<noteq> DQUOTE" "c \<noteq> BACKSLASH"
    by fastforce
  then show ?thesis
  proof cases
    case 1
    show ?thesis unfolding 1 by (simp add: quote_char_def unescape_def lit_iff)
  next
    case 2
    show ?thesis unfolding 2 by (simp add: quote_char_def unescape_def lit_iff)
  next
    case 3
    then have "c = char_of (8::nat)" by (simp add: code_eq_iff[of c])
    then show ?thesis by (simp add: quote_char_def unescape_def lit_iff)
  next
    case 4
    then have "c = char_of (12::nat)" by (simp add: code_eq_iff[of c])
    then show ?thesis by (simp add: quote_char_def unescape_def lit_iff)
  next
    case 5
    then have "c = char_of (10::nat)" by (simp add: code_eq_iff[of c])
    then show ?thesis by (simp add: quote_char_def unescape_def lit_iff)
  next
    case 6
    then have "c = char_of (13::nat)" by (simp add: code_eq_iff[of c])
    then show ?thesis by (simp add: quote_char_def unescape_def lit_iff)
  next
    case 7
    then have "c = char_of (9::nat)" by (simp add: code_eq_iff[of c])
    then show ?thesis by (simp add: quote_char_def unescape_def lit_iff)
  next
    case 8
    then have q: "quote_char c = [BACKSLASH, CHR ''u'', CHR ''0'', CHR ''0'',
                    hex_char (code c div 16), hex_char (code c mod 16)]"
      by (auto simp: quote_char_def lit_iff)
    have u: "utf8_unit (code c) = [c]" using 8(1) by (simp add: utf8_unit_def)
    show ?thesis using hex4_control[OF 8(1)] u
      by (simp add: q lit_iff)
  next
    case 9
    then have q: "quote_char c = [c]"
      by (auto simp: quote_char_def)
    show ?thesis using 9 by (simp add: q)
  qed
qed

lemma parse_chars_quoted:
  "parse_chars (concat (map quote_char s) @ DQUOTE # rest) = Some (s, rest)"
  by (induction s) (simp_all add: parse_chars_quote_char)

subsection \<open>Values\<close>

lemma is_ws_iff: "is_ws c \<longleftrightarrow> code c \<in> {32, 9, 10, 13}"
  by (auto simp: is_ws_def)

lemma value_end_number_end: "value_end rest \<Longrightarrow> number_end rest"
  by (auto simp: value_end_def number_end_def is_digit_def split: list.splits)

lemma value_end_simps [simp]:
  "value_end []" "value_end (CHR '','' # r)" "value_end (CHR '']'' # r)" "value_end (CHR ''}'' # r)"
  by (simp_all add: value_end_def)

lemma show_int_Cons: "\<exists>c r. show_int i = c # r \<and> (c = CHR ''-'' \<or> is_digit c)"
proof (cases "i < 0")
  case True
  then show ?thesis by (simp add: show_int_def)
next
  case False
  obtain c r where cr: "digits (nat i) = c # r" by (cases "digits (nat i)") auto
  then have "c \<in> set (digits (nat i))" by simp
  then have "is_digit c" by (rule digits_all_digit)
  with cr False show ?thesis by (simp add: show_int_def)
qed

lemma parse_value_number:
  assumes "value_end rest"
  shows "parse_value (show_int i @ rest) = Some (JNumber i, rest)"
proof -
  obtain c r where cr: "show_int i = c # r" and c: "c = CHR ''-'' \<or> is_digit c"
    using show_int_Cons by blast
  from c have nows: "\<not> is_ws c" and n1: "c \<noteq> CHR ''[''" "c \<noteq> CHR ''{''" "c \<noteq> DQUOTE"
    and n2: "c \<noteq> CHR ''t''" "c \<noteq> CHR ''f''" "c \<noteq> CHR ''n''"
    by (auto simp: is_ws_iff is_digit_def lit_iff)
  have "parse_value (c # r @ rest) = parse_number (c # r @ rest)"
    using nows n1 n2 by (subst parse_value.simps) (simp add: skip_ws_Cons)
  then show ?thesis
    using parse_number_show_int[OF value_end_number_end[OF assms], of i] by (simp add: cr)
qed

lemma parse_value_string: "parse_value (quote s @ rest) = Some (JString s, rest)"
  by (subst parse_value.simps)
     (simp add: quote_def skip_ws_Cons is_ws_iff lit_iff parse_chars_quoted)

lemma parse_value_literals:
  "parse_value (''null'' @ rest) = Some (JNull, rest)"
  "parse_value (''true'' @ rest) = Some (JBool True, rest)"
  "parse_value (''false'' @ rest) = Some (JBool False, rest)"
  by (subst parse_value.simps, simp add: skip_ws_Cons is_ws_iff lit_iff)+

lemma commas_Cons: "xs \<noteq> [] \<Longrightarrow> commas (x # xs) = x @ CHR '','' # commas xs"
  by (cases xs) simp_all

lemma parse_elements_printed:
  assumes "vs \<noteq> []"
    and "\<And>v rest. v \<in> set vs \<Longrightarrow> value_end rest \<Longrightarrow> parse_value (stringify v @ rest) = Some (v, rest)"
  shows "parse_elements (commas (map stringify vs) @ CHR '']'' # rest) = Some (vs, rest)"
  using assms
proof (induction vs rule: list_nonempty_induct)
  case (single x)
  have "parse_value (stringify x @ CHR '']'' # rest) = Some (x, CHR '']'' # rest)"
    by (rule single) simp_all
  then show ?case
    by (subst parse_elements.simps) (simp add: skip_ws_Cons is_ws_iff)
next
  case (cons x xs)
  have v: "parse_value (stringify x @ CHR '','' # commas (map stringify xs) @ CHR '']'' # rest)
           = Some (x, CHR '','' # commas (map stringify xs) @ CHR '']'' # rest)"
    by (rule cons.prems) simp_all
  have r: "parse_elements (commas (map stringify xs) @ CHR '']'' # rest) = Some (xs, rest)"
    by (rule cons.IH) (simp add: cons.prems)
  from cons.hyps have c: "commas (stringify x # map stringify xs) = stringify x @ CHR '','' # commas (map stringify xs)"
    by (simp add: commas_Cons)
  show ?case
    by (subst parse_elements.simps) (simp add: c v r skip_ws_Cons is_ws_iff)
qed

lemma parse_members_step:
  "parse_members (quote k @ CHR '':'' # s) =
     (case parse_value s of
        None \<Rightarrow> None
      | Some (v, r3) \<Rightarrow>
          (case skip_ws r3 of
             [] \<Rightarrow> None
           | d # r4 \<Rightarrow>
               if d = CHR '','' then
                 (if length r4 < length (quote k @ CHR '':'' # s)
                  then map_option (\<lambda>(ms, rest). ((k, v) # ms, rest)) (parse_members r4)
                  else None)
               else if d = CHR ''}'' then Some ([(k, v)], r4)
               else None))"
  by (subst parse_members.simps)
     (simp add: quote_def skip_ws_Cons is_ws_iff lit_iff parse_chars_quoted)

lemma parse_members_printed:
  assumes "ms \<noteq> []"
    and "\<And>m rest. m \<in> set ms \<Longrightarrow> value_end rest \<Longrightarrow> parse_value (stringify (snd m) @ rest) = Some (snd m, rest)"
  shows "parse_members (commas (map member_text ms) @ CHR ''}'' # rest) = Some (ms, rest)"
  using assms
proof (induction ms rule: list_nonempty_induct)
  case (single m)
  obtain k v where m: "m = (k, v)" by (cases m)
  have "parse_value (stringify v @ CHR ''}'' # rest) = Some (v, CHR ''}'' # rest)"
    using single[of m] by (simp add: m)
  then show ?case
    by (simp add: m member_text_def parse_members_step skip_ws_Cons is_ws_iff)
next
  case (cons m ms)
  obtain k v where m: "m = (k, v)" by (cases m)
  let ?tail = "commas (map member_text ms) @ CHR ''}'' # rest"
  have v: "parse_value (stringify v @ CHR '','' # ?tail) = Some (v, CHR '','' # ?tail)"
    using cons.prems[of m] by (simp add: m)
  have r: "parse_members ?tail = Some (ms, rest)"
    by (rule cons.IH) (simp add: cons.prems)
  from cons.hyps have c: "commas (member_text (k, v) # map member_text ms)
      = quote k @ CHR '':'' # stringify v @ CHR '','' # commas (map member_text ms)"
    by (simp add: commas_Cons member_text_def)
  show ?case
    by (simp add: m c parse_members_step v r skip_ws_Cons is_ws_iff)
qed

lemma stringify_opener:
  "exact v \<Longrightarrow> \<exists>c r. stringify v = c # r \<and> opener c"
proof (cases v)
  case (JNumber i)
  obtain c r where cr: "show_int i = c # r" and c: "c = CHR ''-'' \<or> is_digit c"
    using show_int_Cons by blast
  from c have "opener c" by (auto simp: opener_def is_ws_iff is_digit_def)
  with cr JNumber show ?thesis by simp
qed (auto simp: opener_def is_ws_iff quote_def lit_iff)

lemma quote_opener: "\<exists>r. quote k = DQUOTE # r"
  by (simp add: quote_def)

lemma parse_value_printed:
  "exact v \<Longrightarrow> value_end rest \<Longrightarrow> parse_value (stringify v @ rest) = Some (v, rest)"
proof (induction v arbitrary: rest)
  case JNull
  show ?case using parse_value_literals(1) by simp
next
  case (JBool b)
  show ?case using parse_value_literals(2,3) by simp
next
  case (JNumber i)
  then show ?case by (simp add: parse_value_number)
next
  case (JInexact l)
  then show ?case by simp
next
  case (JString s)
  show ?case by (simp add: parse_value_string)
next
  case (JArray vs)
  show ?case
  proof (cases vs)
    case Nil
    show ?thesis
      by (subst parse_value.simps) (simp add: Nil skip_ws_Cons is_ws_iff lit_iff)
  next
    case (Cons x xs)
    from JArray.prems(1) have ex: "\<And>v. v \<in> set vs \<Longrightarrow> exact v" by simp
    have el: "parse_elements (commas (map stringify vs) @ CHR '']'' # rest) = Some (vs, rest)"
      by (rule parse_elements_printed) (simp_all add: Cons JArray.IH ex[unfolded Cons])
    from ex[of x] Cons obtain c r where cr: "stringify x = c # r" and op: "opener c"
      using stringify_opener by fastforce
    have "\<exists>t. commas (map stringify vs) @ CHR '']'' # rest = c # t"
      by (cases xs) (simp_all add: Cons cr)
    then obtain t where t: "commas (map stringify vs) @ CHR '']'' # rest = c # t" ..
    show ?thesis
      using op el
      by (subst parse_value.simps) (simp add: skip_ws_Cons is_ws_iff lit_iff t opener_def)
  qed
next
  case (JObject ms)
  show ?case
  proof (cases ms)
    case Nil
    show ?thesis
      by (subst parse_value.simps) (simp add: Nil skip_ws_Cons is_ws_iff lit_iff)
  next
    case (Cons m ms')
    from JObject.prems(1) have ex: "\<And>m. m \<in> set ms \<Longrightarrow> exact (snd m)" by simp
    have IH: "parse_value (stringify (snd m) @ rest) = Some (snd m, rest)"
      if "m \<in> set ms" "value_end rest" for m rest
      using JObject.IH[of m "snd m" rest] that ex[of m] by (cases m) auto
    have el: "parse_members (commas (map member_text ms) @ CHR ''}'' # rest) = Some (ms, rest)"
      by (rule parse_members_printed) (simp_all add: Cons IH[unfolded Cons])
    have "\<exists>t. commas (map member_text ms) @ CHR ''}'' # rest = DQUOTE # t"
      by (cases ms'; cases m) (simp_all add: Cons quote_def member_text_def)
    then obtain t where t: "commas (map member_text ms) @ CHR ''}'' # rest = DQUOTE # t" ..
    have st: "stringify (JObject ms) = CHR ''{'' # commas (map member_text ms) @ ''}''"
      by (simp add: member_text_def)
    show ?thesis
      using el unfolding st
      by (subst parse_value.simps) (simp add: skip_ws_Cons is_ws_iff lit_iff t)
  qed
qed

lemma JSON_parse_stringify: "exact v \<Longrightarrow> JSON_parse (stringify v) = Some v"
  using parse_value_printed[of v "[]"] by (simp add: JSON_parse_def)

subsection \<open>The parser consumes text\<close>

lemma skip_ws_shorter: "skip_ws s = c # cs \<Longrightarrow> length cs < length s"
  using length_dropWhile_le[of is_ws s] by (simp add: skip_ws_def)

lemma skip_ws_le: "length (skip_ws s) \<le> length s"
  by (simp add: skip_ws_def length_dropWhile_le)

lemma parse_chars_shorter: "parse_chars s = Some (t, r) \<Longrightarrow> length r < length s"
  by (induction s arbitrary: t r rule: parse_chars.induct)
     (fastforce split: if_splits list.splits option.splits)+

lemma parse_number_shorter: "parse_number s = Some (v, r) \<Longrightarrow> length r < length s"
proof -
  have dw: "length (dropWhile is_digit x) \<le> length x" for x by (rule length_dropWhile_le)
  have ip: "parse_int_part x = Some (a, b) \<Longrightarrow> length b < length x" for x a b
    using dw by (auto simp: parse_int_part_def le_imp_less_Suc split: list.splits if_splits)
  have fp: "parse_fraction x = Some (a, b) \<Longrightarrow> length b \<le> length x" for x a b
    using dw by (auto simp: parse_fraction_def le_SucI split: list.splits if_splits)
  have ep: "parse_exponent x = Some (a, b) \<Longrightarrow> length b \<le> length x" for x a b
    using dw by (auto simp: parse_exponent_def Let_def le_SucI split: list.splits if_splits prod.splits)
  assume "parse_number s = Some (v, r)"
  then obtain sg s1 ip' s2 fp' s3 ep' where
    a: "(sg, s1) = (case s of c # r \<Rightarrow> if c = CHR ''-'' then ([c], r) else ([], s) | [] \<Rightarrow> ([], s))"
    and b: "parse_int_part s1 = Some (ip', s2)" and c: "parse_fraction s2 = Some (fp', s3)"
    and d: "parse_exponent s3 = Some (ep', r)"
    by (auto simp: parse_number_def Let_def split: prod.splits option.splits if_splits)
  from a have "length s1 \<le> length s" by (auto split: list.splits if_splits)
  with ip[OF b] fp[OF c] ep[OF d] show ?thesis by linarith
qed

lemma parse_value_shorter:
  "(\<forall>v r. parse_value s = Some (v, r) \<longrightarrow> length r < length s)"
  "(\<forall>vs r. parse_elements s1 = Some (vs, r) \<longrightarrow> length r < length s1)"
  "(\<forall>ms r. parse_members s2 = Some (ms, r) \<longrightarrow> length r < length s2)"
proof (induction s and s1 and s2 rule: parse_value_parse_elements_parse_members.induct)
  case (1 s)
  show ?case
  proof (intro allI impI)
    fix v r assume pv: "parse_value s = Some (v, r)"
    then obtain c cs where sk: "skip_ws s = c # cs"
      by (subst (asm) parse_value.simps) (auto split: list.splits)
    from skip_ws_shorter[OF sk] have l: "length cs < length s" .
    from skip_ws_le[of s] sk have l2: "length (c # cs) \<le> length s" by simp
    from pv sk consider
        (arr0) d r' where "c = CHR ''[''" "skip_ws cs = d # r'" "d = CHR '']''" "r = r'"
      | (arr) d r' vs where "c = CHR ''[''" "skip_ws cs = d # r'" "d \<noteq> CHR '']''" "parse_elements cs = Some (vs, r)"
      | (obj0) d r' where "c = CHR ''{''" "skip_ws cs = d # r'" "d = CHR ''}''" "r = r'"
      | (obj) d r' ms where "c = CHR ''{''" "skip_ws cs = d # r'" "d \<noteq> CHR ''}''" "parse_members cs = Some (ms, r)"
      | (str) t where "c = DQUOTE" "parse_chars cs = Some (t, r)"
      | (lit4) "r = drop 4 (c # cs)"
      | (lit5) "r = drop 5 (c # cs)"
      | (num) "parse_number (c # cs) = Some (v, r)"
      by (subst (asm) parse_value.simps) (auto split: list.splits if_splits)
    then show "length r < length s"
    proof cases
      case arr0
      with skip_ws_shorter[OF arr0(2)] l show ?thesis by simp
    next
      case arr
      with "1.IH"(1)[OF sk arr(1) arr(2) arr(3)] l show ?thesis by auto
    next
      case obj0
      with skip_ws_shorter[OF obj0(2)] l show ?thesis by simp
    next
      case obj
      have "c \<noteq> CHR ''[''" using obj(1) by simp
      with "1.IH"(2)[OF sk this obj(1) obj(2) obj(3)] obj l show ?thesis by auto
    next
      case str
      with parse_chars_shorter[OF str(2)] l show ?thesis by simp
    next
      case lit4
      with l2 show ?thesis by simp
    next
      case lit5
      with l2 show ?thesis by simp
    next
      case num
      with parse_number_shorter[OF num] l2 show ?thesis by simp
    qed
  qed
next
  case (2 s)
  show ?case
  proof (intro allI impI)
    fix vs r assume pe: "parse_elements s = Some (vs, r)"
    then obtain v r0 where pv: "parse_value s = Some (v, r0)"
      by (subst (asm) parse_elements.simps) (auto split: option.splits)
    with "2.IH"(1) have l0: "length r0 < length s" by simp
    from pe pv obtain d r' where sk: "skip_ws r0 = d # r'"
      by (subst (asm) parse_elements.simps) (auto split: list.splits)
    from skip_ws_shorter[OF sk] l0 have l1: "length r' < length s" by simp
    from pe pv sk consider
        (more) vs' where "d = CHR '',''" "length r' < length s" "parse_elements r' = Some (vs', r)"
      | (fin) "r = r'"
      by (subst (asm) parse_elements.simps) (auto split: if_splits)
    then show "length r < length s"
    proof cases
      case more
      from "2.IH"(2)[OF pv refl sk more(1) more(2)] more(3) l1 show ?thesis by auto
    next
      case fin
      with l1 show ?thesis by simp
    qed
  qed
next
  case (3 s)
  show ?case
  proof (intro allI impI)
    fix ms r assume pm: "parse_members s = Some (ms, r)"
    then obtain q cs where sk: "skip_ws s = q # cs" and q: "\<not> q \<noteq> DQUOTE"
      by (subst (asm) parse_members.simps) (auto split: list.splits if_splits)
    from pm sk q obtain k r1 where pc: "parse_chars cs = Some (k, r1)"
      by (subst (asm) parse_members.simps) (auto split: option.splits)
    from pm sk q pc obtain colon r2 where sk1: "skip_ws r1 = colon # r2"
      and c: "\<not> (colon \<noteq> CHR '':'' \<or> \<not> length r2 < length s)"
      by (subst (asm) parse_members.simps) (auto split: list.splits if_splits)
    from pm sk q pc sk1 c obtain v r3 where pv: "parse_value r2 = Some (v, r3)"
      by (subst (asm) parse_members.simps) (auto split: option.splits)
    from "3.IH"(1)[OF sk q pc refl sk1 c] pv have l3: "length r3 < length r2" by simp
    from c have l2: "length r2 < length s" by simp
    from pm sk q pc sk1 c pv obtain d r4 where sk3: "skip_ws r3 = d # r4"
      by (subst (asm) parse_members.simps) (auto split: list.splits)
    from skip_ws_shorter[OF sk3] l3 l2 have l4: "length r4 < length s" by simp
    from pm sk q pc sk1 c pv sk3 consider
        (more) ms' where "d = CHR '',''" "length r4 < length s" "parse_members r4 = Some (ms', r)"
      | (fin) "r = r4"
      by (subst (asm) parse_members.simps) (auto split: if_splits)
    then show "length r < length s"
    proof cases
      case more
      from "3.IH"(2)[OF sk q pc refl sk1 c pv refl sk3 more(1) more(2)] more(3) l4 show ?thesis by auto
    next
      case fin
      with l4 show ?thesis by simp
    qed
  qed
qed

text \<open>
  Hence the length tests in \<open>parse_elements\<close> and \<open>parse_members\<close> always succeed:
  both functions satisfy the equations of the plain recursive descent.
\<close>

lemma parse_elements_unguarded:
  "parse_elements s =
     (case parse_value s of
        None \<Rightarrow> None
      | Some (v, r) \<Rightarrow>
          (case skip_ws r of
             [] \<Rightarrow> None
           | d # r' \<Rightarrow>
               if d = CHR '','' then map_option (\<lambda>(vs, rest). (v # vs, rest)) (parse_elements r')
               else if d = CHR '']'' then Some ([v], r')
               else None))"
proof (cases "parse_value s")
  case None
  then show ?thesis by (subst parse_elements.simps) simp
next
  case (Some p)
  obtain v r where p: "p = (v, r)" by (cases p)
  from Some p parse_value_shorter(1)[of s] have l: "length r < length s" by simp
  show ?thesis
  proof (cases "skip_ws r")
    case Nil
    then show ?thesis using Some p by (subst parse_elements.simps) simp
  next
    case (Cons d r')
    from skip_ws_shorter[OF Cons] l have "length r' < length s" by simp
    then show ?thesis using Some p Cons by (subst parse_elements.simps) simp
  qed
qed

lemma parse_members_unguarded:
  "parse_members s =
     (case skip_ws s of
        [] \<Rightarrow> None
      | q # cs \<Rightarrow>
          if q \<noteq> DQUOTE then None
          else
            (case parse_chars cs of
               None \<Rightarrow> None
             | Some (k, r1) \<Rightarrow>
                 (case skip_ws r1 of
                    [] \<Rightarrow> None
                  | colon # r2 \<Rightarrow>
                      if colon \<noteq> CHR '':'' then None
                      else
                        (case parse_value r2 of
                           None \<Rightarrow> None
                         | Some (v, r3) \<Rightarrow>
                             (case skip_ws r3 of
                                [] \<Rightarrow> None
                              | d # r4 \<Rightarrow>
                                  if d = CHR '','' then
                                    map_option (\<lambda>(ms, rest). ((k, v) # ms, rest)) (parse_members r4)
                                  else if d = CHR ''}'' then Some ([(k, v)], r4)
                                  else None)))))"
proof -
  have g: "length r2 < length s \<and> (parse_value r2 = Some (v, r3) \<longrightarrow> skip_ws r3 = d # r4 \<longrightarrow> length r4 < length s)"
    if "skip_ws s = q # cs" "parse_chars cs = Some (k, r1)" "skip_ws r1 = colon # r2"
    for q cs k r1 colon r2 v r3 d r4
  proof -
    from skip_ws_shorter[OF that(1)] parse_chars_shorter[OF that(2)] skip_ws_shorter[OF that(3)]
    have l2: "length r2 < length s" by simp
    moreover have "length r4 < length s" if "parse_value r2 = Some (v, r3)" "skip_ws r3 = d # r4"
      using parse_value_shorter(1)[of r2] that skip_ws_shorter[OF that(2)] l2 by fastforce
    ultimately show ?thesis by simp
  qed
  show ?thesis
    by (subst parse_members.simps) (auto split: list.splits option.splits dest: g)
qed

section \<open>Properties of the codec\<close>

lemma strip_zeros_padded:
  assumes "s \<noteq> []" and "last s \<noteq> NUL"
  shows "strip_zeros (s @ replicate k NUL) = s"
proof -
  have "dropWhile (\<lambda>c. c = NUL) (replicate k NUL @ rev s) = dropWhile (\<lambda>c. c = NUL) (rev s)"
    by (simp add: dropWhile_append)
  also have "\<dots> = rev s" using assms by (cases "rev s") (auto simp: last_rev[symmetric] simp del: last_rev)
  finally show ?thesis by (simp add: strip_zeros_def)
qed

lemma strip_zeros_alloc: "strip_zeros (alloc n) = []"
  by (simp add: strip_zeros_def alloc_def)

lemma decodePage_alloc: "decodePage (alloc n) = Inl EmptyPage"
  by (simp add: decodePage_def strip_zeros_alloc)

lemma those_map_Some: "(\<And>x. f (g x) = Some x) \<Longrightarrow> those (map (f \<circ> g) xs) = Some xs"
  by (induction xs) simp_all

lemma exact_node_json: "exact (node_json n)"
  by (auto simp: node_json_def split: option.splits nullable.splits)

lemma stringify_node_shape:
  "\<exists>t. stringify (node_json n) = CHR ''{'' # t @ ''}''"
  by (simp add: node_json_def)

lemma stringify_node_ends:
  "stringify (node_json n) \<noteq> []" "last (stringify (node_json n)) \<noteq> NUL"
  "\<not> blank (stringify (node_json n))"
proof -
  obtain t where t: "stringify (node_json n) = CHR ''{'' # t @ ''}''"
    using stringify_node_shape by blast
  show "stringify (node_json n) \<noteq> []" "last (stringify (node_json n)) \<noteq> NUL"
    "\<not> blank (stringify (node_json n))"
    by (simp_all add: t NUL_def code_def)
qed

lemma asBTreeNodePage_node_json: "asBTreeNodePage (node_json n) = Some n"
proof -
  have a: "json_array json_int (JArray (map JNumber ks)) = Some ks" for ks
    by (simp add: json_array_def those_map_Some json_int_def)
  have b: "json_array json_nat (JArray (map (\<lambda>c. JNumber (int c)) cs)) = Some cs" for cs
    using those_map_Some[of json_nat "\<lambda>c. JNumber (int c)" cs]
    by (simp add: json_array_def json_nat_def comp_def)
  have c: "json_array json_string (JArray (map JString vs)) = Some vs" for vs
    by (simp add: json_array_def those_map_Some json_string_def)
  show ?thesis
    by (cases "values_p n"; cases "nextLeaf n")
       (simp_all add: asBTreeNodePage_def node_json_def property_def a b c json_nat_def json_bool_def)
qed

lemma decodePage_padded:
  "decodePage (stringify (node_json n) @ replicate k NUL) = Inr (node_json n)"
  by (simp add: decodePage_def strip_zeros_padded stringify_node_ends
        JSON_parse_stringify exact_node_json)

lemma digits_lt10: "n < 10 \<Longrightarrow> digits n = [digit_char n]"
  by (subst digits.simps) simp

lemma digits_ge10: "10 \<le> n \<Longrightarrow> digits n = digits (n div 10) @ [digit_char (n mod 10)]"
  by (subst digits.simps) simp

lemmas text_eval = node_json_def quote_def quote_char_def show_int_def digits_lt10 digits_ge10
  DQUOTE_def BACKSLASH_def code_def

lemma last_digits_digit: "is_digit (last (digits n))"
proof -
  have "last (digits n) \<in> set (digits n)" by simp
  then show ?thesis by (rule digits_all_digit)
qed

lemma is_digit_facts:
  assumes "is_digit c"
  shows "c \<noteq> NUL" and "\<not> blank (c # cs)"
  using assms by (auto simp: is_digit_def NUL_def code_def)

lemma show_int_last: "is_digit (last (show_int i))"
  using last_digits_digit by (simp add: show_int_def)

lemma show_int_not_blank: "\<not> blank (show_int i @ rest)"
proof -
  obtain c r where cr: "show_int i = c # r" and c: "c = CHR ''-'' \<or> is_digit c"
    using show_int_Cons by blast
  from c show ?thesis
    by (auto simp: cr is_digit_def)
qed

lemma stringify_printable:
  assumes "exact v"
  shows "stringify v \<noteq> []" and "last (stringify v) \<noteq> NUL" and "\<not> blank (stringify v)"
proof -
  show "stringify v \<noteq> []"
    using stringify_opener[OF assms] by auto
  show "last (stringify v) \<noteq> NUL"
  proof (cases v)
    case (JNumber i)
    then show ?thesis using is_digit_facts(1)[OF show_int_last[of i]] by simp
  next
    case (JInexact l)
    with assms show ?thesis by simp
  qed (simp_all add: NUL_def quote_def DQUOTE_def)
  show "\<not> blank (stringify v)"
  proof (cases v)
    case (JNumber i)
    then show ?thesis using show_int_not_blank[of i "[]"] by simp
  next
    case (JInexact l)
    with assms show ?thesis by simp
  qed (simp_all add: quote_def)
qed

lemma decodePage_printed:
  "exact v \<Longrightarrow> decodePage (stringify v @ alloc k) = Inr v"
  by (simp add: decodePage_def alloc_def strip_zeros_padded stringify_printable JSON_parse_stringify)

lemma blank_ws: "list_all is_ws w \<Longrightarrow> blank w"
  by (induction w) (auto simp: is_ws_def)

lemma strip_zeros_ws: "list_all is_ws w \<Longrightarrow> strip_zeros (w @ alloc k) = w"
proof (cases "w = []")
  case True
  then show ?thesis by (simp add: strip_zeros_alloc)
next
  case False
  assume "list_all is_ws w"
  with False have "is_ws (last w)" by (simp add: list_all_iff)
  then have "last w \<noteq> NUL" by (auto simp: is_ws_def NUL_def code_def)
  with False show ?thesis by (simp add: alloc_def strip_zeros_padded)
qed

text \<open>
  Claim C3. For every node whose JSON text is at most \<open>s\<close> bytes long,
  \<^verbatim>\<open>decodePage(encodePage(node, s))\<close> returns the JSON value of the node, with the
  properties \<^verbatim>\<open>id\<close>, \<^verbatim>\<open>isLeaf\<close>, \<^verbatim>\<open>keys\<close>, \<^verbatim>\<open>children\<close>, \<^verbatim>\<open>values\<close> and
  \<^verbatim>\<open>nextLeaf\<close> of the node, and that value is the node again.
\<close>

theorem codec_round_trip:
  assumes "length (stringify (node_json n)) \<le> s"
  shows "decode_encoded n s = Inr (node_json n) \<and> asBTreeNodePage (node_json n) = Some n"
  using assms
  by (simp add: decode_encoded_def encodePage_def Let_def decodePage_padded asBTreeNodePage_node_json)

theorem codec_round_trip_witness:
  "decode_encoded \<lparr>id_p = 1, isLeaf = True, keys = [20, -25], children = [],
                    values_p = Some [''d'', ''e f''], nextLeaf = Value 12\<rparr> 4096
     = Inr (node_json \<lparr>id_p = 1, isLeaf = True, keys = [20, -25], children = [],
                    values_p = Some [''d'', ''e f''], nextLeaf = Value 12\<rparr>)"
proof -
  have "length (stringify (node_json \<lparr>id_p = 1, isLeaf = True, keys = [20, -25], children = [],
                    values_p = Some [''d'', ''e f''], nextLeaf = Value 12\<rparr>)) \<le> 4096"
    by (simp add: text_eval)
  from codec_round_trip[OF this] show ?thesis by (rule conjunct1)
qed

text \<open>
  Claim C9, as the code has it. \<^verbatim>\<open>decodePage\<close> fails with \<open>EmptyPage\<close> exactly when
  the block, without its trailing zero bytes, is empty or white space only; a page that
  was allocated and never written is such a block. It fails with \<open>MalformedPage\<close>
  exactly when the remaining text is not blank and is not a JSON text. Every JSON text is
  returned as the value it denotes, whether or not that value has the shape of a node.
\<close>

theorem decodePage_failures:
  "(list_all is_ws w \<longrightarrow> decodePage (w @ alloc k) = Inl EmptyPage)
   \<and> (decodePage b = Inl EmptyPage \<longleftrightarrow> blank (strip_zeros b))
   \<and> (decodePage b = Inl MalformedPage \<longleftrightarrow>
        \<not> blank (strip_zeros b) \<and> JSON_parse (strip_zeros b) = None)
   \<and> (exact v \<longrightarrow> decodePage (stringify v @ alloc k) = Inr v)"
  by (auto simp: decodePage_def Let_def strip_zeros_ws blank_ws decodePage_printed[unfolded decodePage_def Let_def]
           split: option.splits)

theorem decodePage_failures_witness:
  "decodePage ('' '' @ alloc 3) = Inl EmptyPage
   \<and> decodePage (''[true,null]'' @ alloc 5) = Inr (JArray [JBool True, JNull])"
proof -
  have a: "list_all is_ws '' ''" by (simp add: is_ws_def code_def)
  have b: "exact (JArray [JBool True, JNull])" by simp
  have c: "stringify (JArray [JBool True, JNull]) = ''[true,null]''" by simp
  from decodePage_failures[of "'' ''" 3 "[]" "JArray [JBool True, JNull]"] a
  have 1: "decodePage ('' '' @ alloc 3) = Inl EmptyPage" by blast
  from decodePage_failures[of "[]" 5 "[]" "JArray [JBool True, JNull]"] b
  have "decodePage (stringify (JArray [JBool True, JNull]) @ alloc 5) = Inr (JArray [JBool True, JNull])"
    by blast
  with 1 show ?thesis unfolding c by simp
qed

text \<open>
  Claim C9 as stated fails: a page that holds the text \<^verbatim>\<open>{}\<close> does not have the
  shape of a node (it has none of the properties), and \<^verbatim>\<open>decodePage\<close> returns it.
\<close>

theorem decodePage_no_shape_check_counterexample:
  "asBTreeNodePage (JObject []) = None \<and> decodePage (''{}'' @ alloc 4094) = Inr (JObject [])"
proof -
  have "stringify (JObject []) = ''{}''" by simp
  with decodePage_printed[of "JObject []" 4094] show ?thesis
    by (simp add: asBTreeNodePage_def property_def)
qed

section \<open>Nodes under writes and allocations\<close>

lemma writeNode_written: "fits n fm \<Longrightarrow> writeNode fm n = Inr (written fm n)"
  by (simp add: writeNode_def fits_def encodePage_def getPageSize_def writePage_def written_def Let_def)

lemma writeNode_overflow: "\<not> fits n fm \<Longrightarrow> writeNode fm n = Inl PageOverflow"
  by (simp add: writeNode_def fits_def encodePage_def getPageSize_def Let_def)

lemma written_simps [simp]:
  "pageSize (written fm n) = pageSize fm" "nextPageId (written fm n) = nextPageId fm"
  by (simp_all add: written_def)

lemma store_inv_written [simp]:
  assumes "store_inv fm" and "fits n fm" and "id_p n < nextPageId fm"
  shows "store_inv (written fm n)"
  using store_inv_write(1)[OF assms(1) assms(3), of _ "written fm n"] writeNode_written[OF assms(2)]
  by (auto simp: writeNode_def split: sum.splits)

lemma page_written:
  assumes "store_inv fm" and "fits n fm" and "id_p n < nextPageId fm"
  shows "page (written fm n) i =
           (if i = id_p n
            then stringify (node_json n) @ replicate (pageSize fm - length (stringify (node_json n))) NUL
            else page fm i)"
proof -
  from assms(1) have pos: "0 < pageSize fm" and len: "length (fileBytes fm) = nextPageId fm * pageSize fm"
    by (simp_all add: store_inv_def)
  from assms(2) have d: "length (stringify (node_json n) @ replicate (pageSize fm - length (stringify (node_json n))) NUL) = pageSize fm"
    by (simp add: fits_def)
  show ?thesis
    using take_drop_writeSync[OF len assms(3) d pos, of i]
    by (simp add: page_def written_def)
qed

lemma readNode_beyond: "store_inv fm \<Longrightarrow> nextPageId fm \<le> i \<Longrightarrow> readNode fm i = Inl PageNotFound"
  by (simp add: readNode_def readPage_page)

lemma readNode_written:
  assumes "store_inv fm" and "fits n fm" and "id_p n < nextPageId fm"
  shows "readNode (written fm n) i = (if i = id_p n then Inr n else readNode fm i)"
proof (cases "i < nextPageId fm")
  case True
  then show ?thesis
    using assms
    by (simp add: readNode_def readPage_page page_written decodePage_padded asBTreeNodePage_node_json)
next
  case False
  then show ?thesis using assms by (auto simp: readNode_beyond)
qed

lemma readNode_allocated:
  assumes "store_inv fm"
  shows "readNode (allocated fm) i =
           (if i = 0 \<or> i = nextPageId fm then Inl EmptyPage else readNode fm i)"
proof (cases "i \<le> nextPageId fm")
  case True
  then show ?thesis
    using assms
    by (auto simp: readNode_def readPage_page page_allocated decodePage_alloc)
next
  case False
  then show ?thesis using assms by (simp add: readNode_beyond)
qed

lemma store_inv_fresh: "0 < ps \<Longrightarrow> store_inv \<lparr>pageSize = ps, nextPageId = 0, fileBytes = []\<rparr>"
  by (simp add: store_inv_def)

section \<open>Running the tree\<close>

lemma findChildIndex_loop_eq:
  "findChildIndex_loop i ks key = i + length (takeWhile (\<lambda>k. key \<ge> k) (drop i ks))"
proof (induction i ks key rule: findChildIndex_loop.induct)
  case (1 i ks key)
  show ?case
  proof (cases "i < length ks \<and> key \<ge> ks ! i")
    case True
    then have "drop i ks = ks ! i # drop (Suc i) ks" by (simp add: Cons_nth_drop_Suc)
    with True "1.IH" show ?thesis
      by (subst findChildIndex_loop.simps) simp
  next
    case False
    show ?thesis
    proof (cases "i < length ks")
      case True
      then have "drop i ks = ks ! i # drop (Suc i) ks" by (simp add: Cons_nth_drop_Suc)
      with False True show ?thesis by (subst findChildIndex_loop.simps) simp
    next
      case False
      then show ?thesis by (subst findChildIndex_loop.simps) simp
    qed
  qed
qed

lemma findChildIndex_eq: "findChildIndex ks key = length (takeWhile (\<lambda>k. key \<ge> k) ks)"
  by (simp add: findChildIndex_def findChildIndex_loop_eq)

lemma position_loop_eq:
  "position_loop i ks key = i + length (takeWhile (\<lambda>k. k < key) (drop i ks))"
proof (induction i ks key rule: position_loop.induct)
  case (1 i ks key)
  show ?case
  proof (cases "i < length ks \<and> ks ! i < key")
    case True
    then have "drop i ks = ks ! i # drop (Suc i) ks" by (simp add: Cons_nth_drop_Suc)
    with True "1.IH" show ?thesis
      by (subst position_loop.simps) simp
  next
    case False
    show ?thesis
    proof (cases "i < length ks")
      case True
      then have "drop i ks = ks ! i # drop (Suc i) ks" by (simp add: Cons_nth_drop_Suc)
      with False True show ?thesis by (subst position_loop.simps) simp
    next
      case False
      then show ?thesis by (subst position_loop.simps) simp
    qed
  qed
qed

lemma position_eq: "position_loop 0 ks key = length (takeWhile (\<lambda>k. k < key) ks)"
  by (simp add: position_loop_eq)

lemma insertRecursive_pos:
  "0 < fuel \<Longrightarrow> insertRecursive fuel ord fm nodeId key val =
     (case readNode fm nodeId of
        Inl e \<Rightarrow> Some (Inl e)
      | Inr node \<Rightarrow>
          if isLeaf node then Some (insertIntoLeaf ord fm node key val)
          else insertIntoInternal (fuel - 1) ord fm node key val)"
  by (cases fuel) (simp_all cong: sum.case_cong if_cong)

lemma searchRecursive_pos:
  "0 < fuel \<Longrightarrow> searchRecursive fuel fm nodeId key =
     (case readNode fm nodeId of
        Inl e \<Rightarrow> Some (Inl e)
      | Inr node \<Rightarrow>
          if isLeaf node then
            (case values_p node of
               None \<Rightarrow> Some (Inr Null)
             | Some vs \<Rightarrow>
                 (case findIndex key (keys node) of
                    None \<Rightarrow> Some (Inr Null)
                  | Some idx \<Rightarrow> Some (Inr (nth_js vs idx))))
          else
            (case nth_js (children node) (findChildIndex (keys node) key) of
               Value childId \<Rightarrow> searchRecursive (fuel - 1) fm childId key
             | _ \<Rightarrow> Some (Inl Unmodelled)))"
  by (cases fuel) (simp_all cong: sum.case_cong if_cong nullable.case_cong)

lemma fresh_store_simps [simp]: "store_inv fresh_store" "pageSize fresh_store = 4096" "nextPageId fresh_store = 0"
  by (simp_all add: fresh_store_def store_inv_def)

lemmas exec = allocatePage_allocated writeNode_written readNode_written readNode_allocated
  fits_def text_eval findChildIndex_eq position_eq insertRecursive_pos searchRecursive_pos
  insertIntoLeaf_def splitLeaf_def splice_in_def nth_js_def insert_tree_def put_def get_def search_def
  Let_def

lemma new0: "newMiniDB None = Inr \<lparr>rootPageId = 0, order = 4, fileManager =
     written (allocated fresh_store) \<lparr>id_p = 0, isLeaf = True, keys = [], children = [],
                     values_p = Some [], nextLeaf = Null\<rparr>\<rparr>"
  by (simp add: newMiniDB_def newFileManager_def newBPlusTree_def fresh_store_def[symmetric] exec)

lemma findLeafForKey_loop_pos:
  "0 < fuel \<Longrightarrow> findLeafForKey_loop fuel fm node key =
     (if isLeaf node then Some (Inr (id_p node))
      else
        (case nth_js (children node) (findChildIndex (keys node) key) of
           Value childId \<Rightarrow>
             (case readNode fm childId of
                Inl e \<Rightarrow> Some (Inl e)
              | Inr node' \<Rightarrow> findLeafForKey_loop (fuel - 1) fm node' key)
         | _ \<Rightarrow> Some (Inl Unmodelled)))"
  by (cases fuel) (simp_all cong: sum.case_cong if_cong nullable.case_cong)

lemma range_loop_pos:
  "0 < fuel \<Longrightarrow> range_loop fuel fm node start stop result =
     (case values_p node of
        None \<Rightarrow> Some (Inr result)
      | Some vs \<Rightarrow>
          if \<not> isLeaf node then Some (Inr result)
          else
            (let (returned, result') = range_for (keys node) 0 vs start stop result
             in if returned then Some (Inr result')
                else
                  (case nextLeaf node of
                     Value next \<Rightarrow>
                       (case readNode fm next of
                          Inl e \<Rightarrow> Some (Inl e)
                        | Inr node' \<Rightarrow> range_loop (fuel - 1) fm node' start stop result')
                   | _ \<Rightarrow> Some (Inr result'))))"
  by (cases fuel) (simp_all cong: sum.case_cong if_cong nullable.case_cong option.case_cong prod.case_cong)

lemmas exec2 = exec findLeafForKey_loop_pos range_loop_pos findLeafForKey_def range_tree_def range_db_def

section \<open>Splitting nodes\<close>

lemma writeNode_cases:
  "writeNode fm n = (if fits n fm then Inr (written fm n) else Inl PageOverflow)"
  by (simp add: writeNode_written writeNode_overflow)

lemma splitLeaf_result:
  assumes inv: "store_inv fm" and alloc: "id_p node < nextPageId fm"
    and vals: "values_p node = Some vs"
    and ok: "splitLeaf fm node = Inr (res, fm')"
  shows "res = Some \<lparr>promotedKey = keys node ! ((length (keys node) + 1) div 2),
                      rightPageId = nextPageId fm\<rparr>"
    and "(length (keys node) + 1) div 2 < length (keys node)"
    and "readNode fm' (id_p node)
           = Inr (node\<lparr>keys := take ((length (keys node) + 1) div 2) (keys node),
                       values_p := Some (take ((length (keys node) + 1) div 2) vs),
                       nextLeaf := Value (nextPageId fm)\<rparr>)"
    and "readNode fm' (nextPageId fm)
           = Inr \<lparr>id_p = nextPageId fm, isLeaf = True,
                  keys = drop ((length (keys node) + 1) div 2) (keys node), children = [],
                  values_p = Some (drop ((length (keys node) + 1) div 2) vs),
                  nextLeaf = (case nextLeaf node of Undefined \<Rightarrow> Null | l \<Rightarrow> l)\<rparr>"
proof -
  let ?mid = "(length (keys node) + 1) div 2"
  let ?left = "node\<lparr>keys := take ?mid (keys node), values_p := Some (take ?mid vs),
                     nextLeaf := Value (nextPageId fm)\<rparr>"
  let ?right = "\<lparr>id_p = nextPageId fm, isLeaf = True, keys = drop ?mid (keys node), children = [],
                  values_p = Some (drop ?mid vs),
                  nextLeaf = (case nextLeaf node of Undefined \<Rightarrow> Null | l \<Rightarrow> l)\<rparr>"
  let ?fm1 = "allocated fm"
  let ?fm2 = "written ?fm1 ?left"
  let ?fm3 = "written ?fm2 ?right"
  from ok have all: "fits ?left ?fm1 \<and> fits ?right ?fm2
      \<and> (\<exists>k rest. drop ?mid (keys node) = k # rest
             \<and> res = Some \<lparr>promotedKey = k, rightPageId = nextPageId fm\<rparr>)
      \<and> fm' = ?fm3"
    by (auto simp: splitLeaf_def vals allocatePage_allocated Let_def writeNode_cases
             split: if_splits list.splits)
  then have fl: "fits ?left ?fm1" and fr: "fits ?right ?fm2" and fm': "fm' = ?fm3"
    by simp_all
  from all obtain k rest where dk: "drop ?mid (keys node) = k # rest"
    and res: "res = Some \<lparr>promotedKey = k, rightPageId = nextPageId fm\<rparr>"
    by blast
  from dk show lt: "?mid < length (keys node)"
    by (metis drop_all linorder_not_less list.discI)
  from dk lt have "k = keys node ! ?mid"
    by (metis nth_via_drop)
  with res show "res = Some \<lparr>promotedKey = keys node ! ?mid, rightPageId = nextPageId fm\<rparr>"
    by simp
  have inv1: "store_inv ?fm1" using inv by simp
  have inv2: "store_inv ?fm2" using inv1 fl alloc by simp
  have "readNode ?fm3 (id_p node) = readNode ?fm2 (id_p node)"
    using inv2 fr alloc by (simp add: readNode_written)
  also have "\<dots> = Inr ?left"
    using inv1 fl alloc by (simp add: readNode_written)
  finally show "readNode fm' (id_p node) = Inr ?left" by (simp add: fm')
  show "readNode fm' (nextPageId fm) = Inr ?right"
    using inv2 fr by (simp add: fm' readNode_written)
qed

lemma position_not_key:
  assumes "key \<notin> set ks"
  shows "\<not> (position_loop 0 ks key < length ks \<and> ks ! position_loop 0 ks key = key)"
proof
  assume a: "position_loop 0 ks key < length ks \<and> ks ! position_loop 0 ks key = key"
  then have lt: "position_loop 0 ks key < length ks" and eq: "ks ! position_loop 0 ks key = key"
    by simp_all
  from nth_mem[OF lt] have "ks ! position_loop 0 ks key \<in> set ks" .
  then have "key \<in> set ks" unfolding eq .
  with assms show False ..
qed

lemma position_le: "position_loop 0 ks key \<le> length ks"
  by (simp add: position_eq length_takeWhile_le)

lemma length_splice_in [simp]: "length (splice_in pos x xs) = Suc (length xs)"
  by (simp add: splice_in_def)

lemma splitInternal_result:
  assumes inv: "store_inv fm" and alloc: "id_p node < nextPageId fm"
    and ok: "splitInternal fm node = Inr (res, fm')"
  shows "res = Some \<lparr>promotedKey = keys node ! (length (keys node) div 2),
                      rightPageId = nextPageId fm\<rparr>"
    and "length (keys node) div 2 < length (keys node)"
    and "readNode fm' (id_p node)
           = Inr (node\<lparr>keys := take (length (keys node) div 2) (keys node),
                       children := take (length (keys node) div 2 + 1) (children node)\<rparr>)"
    and "readNode fm' (nextPageId fm)
           = Inr \<lparr>id_p = nextPageId fm, isLeaf = False,
                  keys = drop (length (keys node) div 2 + 1) (keys node),
                  children = drop (length (keys node) div 2 + 1) (children node),
                  values_p = None, nextLeaf = Null\<rparr>"
proof -
  let ?mid = "length (keys node) div 2"
  let ?left = "node\<lparr>keys := take ?mid (keys node), children := take (?mid + 1) (children node)\<rparr>"
  let ?right = "\<lparr>id_p = nextPageId fm, isLeaf = False, keys = drop (?mid + 1) (keys node),
                  children = drop (?mid + 1) (children node), values_p = None, nextLeaf = Null\<rparr>"
  let ?fm1 = "allocated fm"
  let ?fm2 = "written ?fm1 ?left"
  let ?fm3 = "written ?fm2 ?right"
  from ok have all: "fits ?left ?fm1 \<and> fits ?right ?fm2
      \<and> ?mid < length (keys node)
      \<and> res = Some \<lparr>promotedKey = keys node ! ?mid, rightPageId = nextPageId fm\<rparr>
      \<and> fm' = ?fm3"
    by (auto simp: splitInternal_def allocatePage_allocated Let_def writeNode_cases nth_js_def
             split: if_splits)
  then have fl: "fits ?left ?fm1" and fr: "fits ?right ?fm2" and fm': "fm' = ?fm3"
    by simp_all
  from all show "?mid < length (keys node)"
    and "res = Some \<lparr>promotedKey = keys node ! ?mid, rightPageId = nextPageId fm\<rparr>"
    by simp_all
  have inv1: "store_inv ?fm1" using inv by simp
  have inv2: "store_inv ?fm2" using inv1 fl alloc by simp
  have "readNode ?fm3 (id_p node) = readNode ?fm2 (id_p node)"
    using inv2 fr alloc by (simp add: readNode_written)
  also have "\<dots> = Inr ?left"
    using inv1 fl alloc by (simp add: readNode_written)
  finally show "readNode fm' (id_p node) = Inr ?left" by (simp add: fm')
  show "readNode fm' (nextPageId fm) = Inr ?right"
    using inv2 fr by (simp add: fm' readNode_written)
qed

lemma middle_not_in_halves:
  assumes "distinct xs" and "i < length xs"
  shows "xs ! i \<notin> set (take i xs)" and "xs ! i \<notin> set (drop (i + 1) xs)"
proof -
  from assms(2) have "xs = take i xs @ xs ! i # drop (Suc i) xs" by (rule id_take_nth_drop)
  with assms(1) have "distinct (take i xs @ xs ! i # drop (Suc i) xs)" by simp
  then show "xs ! i \<notin> set (take i xs)" and "xs ! i \<notin> set (drop (i + 1) xs)"
    by auto
qed

text \<open>
  Both splits return when the two nodes that they write fit a page and the promoted key
  exists.
\<close>

lemma splitLeaf_returns:
  assumes vals: "values_p node = Some vs"
    and mid: "mid = (length (keys node) + 1) div 2" and lt: "mid < length (keys node)"
    and left: "left = node\<lparr>keys := take mid (keys node), values_p := Some (take mid vs),
                              nextLeaf := Value (nextPageId fm)\<rparr>"
    and right: "right = \<lparr>id_p = nextPageId fm, isLeaf = True, keys = drop mid (keys node),
                          children = [], values_p = Some (drop mid vs),
                          nextLeaf = (case nextLeaf node of Undefined \<Rightarrow> Null | l \<Rightarrow> l)\<rparr>"
    and fl: "fits left (allocated fm)" and fr: "fits right (allocated fm)"
  shows "splitLeaf fm node
           = Inr (Some \<lparr>promotedKey = keys node ! mid, rightPageId = nextPageId fm\<rparr>,
                  written (written (allocated fm) left) right)"
proof -
  from lt obtain k rest where dk: "drop mid (keys node) = k # rest"
    by (cases "drop mid (keys node)") auto
  with lt have k: "k = keys node ! mid" by (metis nth_via_drop)
  from fr have fr': "fits right (written (allocated fm) left)" by (simp add: fits_def)
  show ?thesis
    using fl fr' dk[unfolded k] unfolding left right mid
    by (simp add: splitLeaf_def vals allocatePage_allocated Let_def writeNode_cases)
qed

lemma splitInternal_returns:
  assumes mid: "mid = length (keys node) div 2" and lt: "mid < length (keys node)"
    and left: "left = node\<lparr>keys := take mid (keys node),
                              children := take (mid + 1) (children node)\<rparr>"
    and right: "right = \<lparr>id_p = nextPageId fm, isLeaf = False, keys = drop (mid + 1) (keys node),
                          children = drop (mid + 1) (children node), values_p = None,
                          nextLeaf = Null\<rparr>"
    and fl: "fits left (allocated fm)" and fr: "fits right (allocated fm)"
  shows "splitInternal fm node
           = Inr (Some \<lparr>promotedKey = keys node ! mid, rightPageId = nextPageId fm\<rparr>,
                  written (written (allocated fm) left) right)"
proof -
  from fr have fr': "fits right (written (allocated fm) left)" by (simp add: fits_def)
  show ?thesis
    using fl fr' lt unfolding left right mid
    by (simp add: splitInternal_def allocatePage_allocated Let_def writeNode_cases nth_js_def)
qed

text \<open>
  Claim C5. A leaf receives a key that it does not hold and then has \<open>newLength\<close> keys,
  more than the order. When \<^verbatim>\<open>insertIntoLeaf\<close> returns, with
  \<open>mid = ceil (newLength / 2)\<close>: the page of the leaf holds the first \<open>mid\<close> keys and
  values and links to the new page; the new page holds the keys and values from index
  \<open>mid\<close> on and the former link of the leaf; the promoted key is the first key of the
  new leaf, where it stays.
\<close>

theorem leaf_split:
  assumes inv: "store_inv fm" and alloc: "id_p node < nextPageId fm"
    and new: "key \<notin> set (keys node)"
    and over: "ord < length (keys node) + 1"
    and ok: "insertIntoLeaf ord fm node key val = Inr (res, fm')"
  shows
    "(let vs = (case values_p node of None \<Rightarrow> [] | Some vs \<Rightarrow> vs);
          pos = position_loop 0 (keys node) key;
          newKeys = splice_in pos key (keys node);
          newValues = splice_in pos val vs;
          newLength = length newKeys;
          mid = (newLength + 1) div 2;
          right = nextPageId fm
      in newLength = length (keys node) + 1
         \<and> newLength \<le> 2 * mid \<and> 2 * mid \<le> newLength + 1
         \<and> readNode fm' (id_p node)
             = Inr (node\<lparr>keys := take mid newKeys, values_p := Some (take mid newValues),
                         nextLeaf := Value right\<rparr>)
         \<and> readNode fm' right
             = Inr \<lparr>id_p = right, isLeaf = True, keys = drop mid newKeys, children = [],
                    values_p = Some (drop mid newValues),
                    nextLeaf = (case nextLeaf node of Undefined \<Rightarrow> Null | l \<Rightarrow> l)\<rparr>
         \<and> res = Some \<lparr>promotedKey = hd (drop mid newKeys), rightPageId = right\<rparr>
         \<and> hd (drop mid newKeys) \<in> set (drop mid newKeys))"
proof -
  let ?vs = "case values_p node of None \<Rightarrow> [] | Some vs \<Rightarrow> vs"
  let ?pos = "position_loop 0 (keys node) key"
  let ?nk = "splice_in ?pos key (keys node)"
  let ?nv = "splice_in ?pos val ?vs"
  let ?node' = "node\<lparr>keys := ?nk, values_p := Some ?nv\<rparr>"
  let ?mid = "(length ?nk + 1) div 2"
  have nk: "\<not> (?pos < length (keys node) \<and> keys node ! ?pos = key)"
    by (rule position_not_key[OF new])
  have len: "length ?nk = length (keys node) + 1" by simp
  have gt: "length (keys ?node') > ord" using over by simp
  have "insertIntoLeaf ord fm node key val = splitLeaf fm ?node'"
    unfolding insertIntoLeaf_def Let_def if_not_P[OF nk] if_P[OF gt] ..
  with ok have sp: "splitLeaf fm ?node' = Inr (res, fm')" by simp
  have a: "id_p ?node' < nextPageId fm" using alloc by simp
  have v: "values_p ?node' = Some ?nv" by simp
  note r = splitLeaf_result[OF inv a v sp]
  from r(2) have lt: "?mid < length ?nk" by simp
  then have dn: "drop ?mid ?nk \<noteq> []" by simp
  have hd: "hd (drop ?mid ?nk) = ?nk ! ?mid" using lt by (simp add: hd_drop_conv_nth)
  have m: "length ?nk \<le> 2 * ?mid" "2 * ?mid \<le> length ?nk + 1"
    by presburger+
  have c1: "readNode fm' (id_p node)
             = Inr (node\<lparr>keys := take ?mid ?nk, values_p := Some (take ?mid ?nv),
                         nextLeaf := Value (nextPageId fm)\<rparr>)"
    using r(3) by simp
  have c2: "readNode fm' (nextPageId fm)
             = Inr \<lparr>id_p = nextPageId fm, isLeaf = True, keys = drop ?mid ?nk, children = [],
                    values_p = Some (drop ?mid ?nv),
                    nextLeaf = (case nextLeaf node of Undefined \<Rightarrow> Null | l \<Rightarrow> l)\<rparr>"
    using r(4) by simp
  have c3: "res = Some \<lparr>promotedKey = hd (drop ?mid ?nk), rightPageId = nextPageId fm\<rparr>"
    using r(1) hd by simp
  have c4: "hd (drop ?mid ?nk) \<in> set (drop ?mid ?nk)"
    using dn by (rule hd_in_set)
  show ?thesis
    unfolding Let_def
    apply (intro conjI)
          apply (rule len)
         apply (rule m(1))
        apply (rule m(2))
       apply (rule c1)
      apply (rule c2)
     apply (rule c3)
    apply (rule c4)
    done
qed

theorem leaf_split_witness:
  "(case insertIntoLeaf 4
          (written (allocated fresh_store)
             \<lparr>id_p = 0, isLeaf = True, keys = [5, 10, 15, 20], children = [],
                values_p = Some [''a'', ''b'', ''c'', ''d''], nextLeaf = Null\<rparr>)
          \<lparr>id_p = 0, isLeaf = True, keys = [5, 10, 15, 20], children = [],
             values_p = Some [''a'', ''b'', ''c'', ''d''], nextLeaf = Null\<rparr> 25 ''e'' of
      Inl e \<Rightarrow> False
    | Inr (res, fm') \<Rightarrow>
        res = Some \<lparr>promotedKey = 20, rightPageId = 1\<rparr>
        \<and> readNode fm' 0 = Inr \<lparr>id_p = 0, isLeaf = True, keys = [5, 10, 15], children = [],
                                values_p = Some [''a'', ''b'', ''c''], nextLeaf = Value 1\<rparr>
        \<and> readNode fm' 1 = Inr \<lparr>id_p = 1, isLeaf = True, keys = [20, 25], children = [],
                                values_p = Some [''d'', ''e''], nextLeaf = Null\<rparr>)"
proof -
  let ?leaf = "\<lparr>id_p = 0, isLeaf = True, keys = [5, 10, 15, 20], children = [],
                 values_p = Some [''a'', ''b'', ''c'', ''d''], nextLeaf = Null\<rparr>"
  let ?fm = "written (allocated fresh_store) ?leaf"
  let ?left = "\<lparr>id_p = 0, isLeaf = True, keys = [5, 10, 15], children = [],
                 values_p = Some [''a'', ''b'', ''c''], nextLeaf = Value (1::nat)\<rparr>"
  let ?right = "\<lparr>id_p = 1, isLeaf = True, keys = [20, 25], children = [],
                  values_p = Some [''d'', ''e''], nextLeaf = Null\<rparr>"
  let ?fm' = "written (written (allocated ?fm) ?left) ?right"
  have inv: "store_inv ?fm" by (simp add: fits_def text_eval)
  have alloc: "id_p ?leaf < nextPageId ?fm" by simp
  have new: "25 \<notin> set (keys ?leaf)" by simp
  have over: "(4::nat) < length (keys ?leaf) + 1" by simp
  have ok: "insertIntoLeaf 4 ?fm ?leaf 25 ''e'' = Inr (Some \<lparr>promotedKey = 20, rightPageId = 1\<rparr>, ?fm')"
    by (simp add: exec)
  from leaf_split[OF inv alloc new over ok] show ?thesis
    by (simp add: ok Let_def position_eq splice_in_def)
qed

text \<open>
  Claim C7. An internal node absorbs a promoted key and a new child and then has
  \<open>newLength\<close> keys, more than the order. When the second half of
  \<^verbatim>\<open>insertIntoInternal\<close> returns, with \<open>midIndex = floor (newLength / 2)\<close>: the key
  at \<open>midIndex\<close> is promoted; the page of the node holds the keys before \<open>midIndex\<close>
  and the children up to \<open>midIndex\<close>; the new page holds the keys and the children after
  \<open>midIndex\<close>; the keys are those of the left node, the promoted key and those of the
  right node, so that the promoted key is in neither node when the keys are distinct.
\<close>

theorem internal_split:
  assumes inv: "store_inv fm" and alloc: "id_p node < nextPageId fm"
    and over: "ord < length (keys node) + 1"
    and ok: "absorbSplit ord fm node result = Inr (res, fm')"
  shows
    "(let pos = position_loop 0 (keys node) (promotedKey result);
          newKeys = splice_in pos (promotedKey result) (keys node);
          newChildren = splice_in (pos + 1) (rightPageId result) (children node);
          newLength = length newKeys;
          midIndex = newLength div 2;
          right = nextPageId fm
      in newLength = length (keys node) + 1
         \<and> midIndex < newLength
         \<and> res = Some \<lparr>promotedKey = newKeys ! midIndex, rightPageId = right\<rparr>
         \<and> readNode fm' (id_p node)
             = Inr (node\<lparr>keys := take midIndex newKeys,
                         children := take (midIndex + 1) newChildren\<rparr>)
         \<and> readNode fm' right
             = Inr \<lparr>id_p = right, isLeaf = False, keys = drop (midIndex + 1) newKeys,
                    children = drop (midIndex + 1) newChildren, values_p = None, nextLeaf = Null\<rparr>
         \<and> newKeys = take midIndex newKeys @ newKeys ! midIndex # drop (midIndex + 1) newKeys
         \<and> (distinct newKeys \<longrightarrow>
               newKeys ! midIndex \<notin> set (take midIndex newKeys)
               \<and> newKeys ! midIndex \<notin> set (drop (midIndex + 1) newKeys)))"
proof -
  let ?pos = "position_loop 0 (keys node) (promotedKey result)"
  let ?nk = "splice_in ?pos (promotedKey result) (keys node)"
  let ?nc = "splice_in (?pos + 1) (rightPageId result) (children node)"
  let ?node' = "node\<lparr>keys := ?nk, children := ?nc\<rparr>"
  let ?mid = "length ?nk div 2"
  have len: "length ?nk = length (keys node) + 1" by simp
  have gt: "length (keys ?node') > ord" using over by simp
  have "absorbSplit ord fm node result = splitInternal fm ?node'"
    unfolding absorbSplit_def Let_def if_P[OF gt] ..
  with ok have sp: "splitInternal fm ?node' = Inr (res, fm')" by simp
  have a: "id_p ?node' < nextPageId fm" using alloc by simp
  note r = splitInternal_result[OF inv a sp]
  from r(2) have lt: "?mid < length ?nk" by simp
  have c1: "res = Some \<lparr>promotedKey = ?nk ! ?mid, rightPageId = nextPageId fm\<rparr>"
    using r(1) by simp
  have c2: "readNode fm' (id_p node)
             = Inr (node\<lparr>keys := take ?mid ?nk, children := take (?mid + 1) ?nc\<rparr>)"
    using r(3) by simp
  have c3: "readNode fm' (nextPageId fm)
             = Inr \<lparr>id_p = nextPageId fm, isLeaf = False, keys = drop (?mid + 1) ?nk,
                    children = drop (?mid + 1) ?nc, values_p = None, nextLeaf = Null\<rparr>"
    using r(4) by simp
  have c4: "?nk = take ?mid ?nk @ ?nk ! ?mid # drop (?mid + 1) ?nk"
    using id_take_nth_drop[OF lt] by simp
  have c5: "distinct ?nk \<longrightarrow> ?nk ! ?mid \<notin> set (take ?mid ?nk) \<and> ?nk ! ?mid \<notin> set (drop (?mid + 1) ?nk)"
    using middle_not_in_halves[OF _ lt] by blast
  show ?thesis
    unfolding Let_def
    apply (intro conjI)
          apply (rule len)
         apply (rule lt)
        apply (rule c1)
       apply (rule c2)
      apply (rule c3)
     apply (rule c4)
    apply (rule c5)
    done
qed

theorem internal_split_witness:
  "(case absorbSplit 4 (allocated (allocated fresh_store))
          \<lparr>id_p = 1, isLeaf = False, keys = [10, 20, 30, 40], children = [2, 3, 4, 5, 6],
             values_p = None, nextLeaf = Null\<rparr>
          \<lparr>promotedKey = 25, rightPageId = 7\<rparr> of
      Inl e \<Rightarrow> False
    | Inr (res, fm') \<Rightarrow>
        res = Some \<lparr>promotedKey = 25, rightPageId = 2\<rparr>
        \<and> readNode fm' 1 = Inr \<lparr>id_p = 1, isLeaf = False, keys = [10, 20], children = [2, 3, 4],
                                values_p = None, nextLeaf = Null\<rparr>
        \<and> readNode fm' 2 = Inr \<lparr>id_p = 2, isLeaf = False, keys = [30, 40], children = [7, 5, 6],
                                values_p = None, nextLeaf = Null\<rparr>)"
proof -
  let ?node = "\<lparr>id_p = 1, isLeaf = False, keys = [10, 20, 30, 40], children = [2, 3, 4, 5, 6],
                 values_p = None, nextLeaf = Null\<rparr>"
  let ?fm = "allocated (allocated fresh_store)"
  let ?left = "\<lparr>id_p = 1, isLeaf = False, keys = [10, 20], children = [2, 3, 4],
                 values_p = None, nextLeaf = Null\<rparr>"
  let ?right = "\<lparr>id_p = 2, isLeaf = False, keys = [30, 40], children = [7, 5, 6],
                  values_p = None, nextLeaf = Null\<rparr>"
  let ?fm' = "written (written (allocated ?fm) ?left) ?right"
  have inv: "store_inv ?fm" by simp
  have alloc: "id_p ?node < nextPageId ?fm" by simp
  have over: "(4::nat) < length (keys ?node) + 1" by simp
  have ok: "absorbSplit 4 ?fm ?node \<lparr>promotedKey = 25, rightPageId = 7\<rparr>
              = Inr (Some \<lparr>promotedKey = 25, rightPageId = 2\<rparr>, ?fm')"
    by (simp add: absorbSplit_def splitInternal_def exec numeral_2_eq_2[symmetric])
  from internal_split[OF inv alloc over ok] show ?thesis
    unfolding ok by (simp add: Let_def position_eq splice_in_def numeral_2_eq_2[symmetric])
qed

section \<open>Five keys in a new database\<close>

lemma four_puts:
  "\<exists>fm. puts 10 \<lparr>rootPageId = 0, order = 4, fileManager =
             written (allocated fresh_store) \<lparr>id_p = 0, isLeaf = True, keys = [], children = [],
                     values_p = Some [], nextLeaf = Null\<rparr>\<rparr>
          [(5, ''a''), (10, ''b''), (15, ''c''), (20, ''d'')]
        = Some (Inr \<lparr>rootPageId = 0, order = 4, fileManager = fm\<rparr>)
      \<and> store_inv fm \<and> pageSize fm = 4096 \<and> nextPageId fm = 1
      \<and> readNode fm 0 = Inr \<lparr>id_p = 0, isLeaf = True, keys = [5, 10, 15, 20], children = [],
                                  values_p = Some [''a'', ''b'', ''c'', ''d''], nextLeaf = Null\<rparr>"
  by (simp add: exec)

lemma five_puts:
  "\<exists>fm. puts 10 \<lparr>rootPageId = 0, order = 4, fileManager =
             written (allocated fresh_store) \<lparr>id_p = 0, isLeaf = True, keys = [], children = [],
                     values_p = Some [], nextLeaf = Null\<rparr>\<rparr>
          [(5, ''a''), (10, ''b''), (15, ''c''), (20, ''d''), (25, ''e'')]
        = Some (Inr \<lparr>rootPageId = 2, order = 4, fileManager = fm\<rparr>)
      \<and> readNode fm 0 = Inl EmptyPage
      \<and> readNode fm 1 = Inr \<lparr>id_p = 1, isLeaf = True, keys = [20, 25], children = [],
                                  values_p = Some [''d'', ''e''], nextLeaf = Null\<rparr>
      \<and> readNode fm 2 = Inr \<lparr>id_p = 2, isLeaf = False, keys = [20], children = [0, 1],
                                  values_p = None, nextLeaf = Null\<rparr>"
  by (simp add: exec)

section \<open>The database after a root split\<close>

text \<open>
  Claim C1 at a failing input. A \<^verbatim>\<open>MiniDB\<close> over a new file receives the keys 5, 10,
  15, 20 and 25. Every \<^verbatim>\<open>put\<close> returns; the fifth splits the root leaf, and the
  allocation of the new root overwrites page 0, the left leaf, with zero bytes. Then
  \<^verbatim>\<open>get(5)\<close> throws the error of an empty page.
\<close>

theorem get_fails_after_root_split:
  "(case newMiniDB None of
      Inl e \<Rightarrow> False
    | Inr db0 \<Rightarrow>
        (case puts 10 db0 [(5, ''a''), (10, ''b''), (15, ''c''), (20, ''d''), (25, ''e'')] of
           Some (Inr db) \<Rightarrow> get 10 db 5 = Some (Inl EmptyPage)
         | _ \<Rightarrow> False))"
proof -
  from five_puts obtain fm where
    p: "puts 10 \<lparr>rootPageId = 0, order = 4, fileManager =
             written (allocated fresh_store) \<lparr>id_p = 0, isLeaf = True, keys = [], children = [],
                     values_p = Some [], nextLeaf = Null\<rparr>\<rparr>
          [(5, ''a''), (10, ''b''), (15, ''c''), (20, ''d''), (25, ''e'')]
        = Some (Inr \<lparr>rootPageId = 2, order = 4, fileManager = fm\<rparr>)"
    and r: "readNode fm 0 = Inl EmptyPage"
      "readNode fm 1 = Inr \<lparr>id_p = 1, isLeaf = True, keys = [20, 25], children = [],
                                  values_p = Some [''d'', ''e''], nextLeaf = Null\<rparr>"
      "readNode fm 2 = Inr \<lparr>id_p = 2, isLeaf = False, keys = [20], children = [0, 1],
                                  values_p = None, nextLeaf = Null\<rparr>"
    by blast
  show ?thesis
    by (simp add: new0 p r get_def search_def searchRecursive_pos findChildIndex_eq nth_js_def del: puts.simps)
qed

text \<open>
  Claim C4 at the same input: \<^verbatim>\<open>range(5, 25)\<close> throws the error of an empty page, and
  so does \<^verbatim>\<open>range(6, 5)\<close>, whose bounds are in the wrong order.
\<close>

theorem range_fails_after_root_split:
  "(case newMiniDB None of
      Inl e \<Rightarrow> False
    | Inr db0 \<Rightarrow>
        (case puts 10 db0 [(5, ''a''), (10, ''b''), (15, ''c''), (20, ''d''), (25, ''e'')] of
           Some (Inr db) \<Rightarrow>
             range_db 10 db 5 25 = Some (Inl EmptyPage) \<and> range_db 10 db 6 5 = Some (Inl EmptyPage)
         | _ \<Rightarrow> False))"
proof -
  from five_puts obtain fm where
    p: "puts 10 \<lparr>rootPageId = 0, order = 4, fileManager =
             written (allocated fresh_store) \<lparr>id_p = 0, isLeaf = True, keys = [], children = [],
                     values_p = Some [], nextLeaf = Null\<rparr>\<rparr>
          [(5, ''a''), (10, ''b''), (15, ''c''), (20, ''d''), (25, ''e'')]
        = Some (Inr \<lparr>rootPageId = 2, order = 4, fileManager = fm\<rparr>)"
    and r: "readNode fm 0 = Inl EmptyPage"
      "readNode fm 1 = Inr \<lparr>id_p = 1, isLeaf = True, keys = [20, 25], children = [],
                                  values_p = Some [''d'', ''e''], nextLeaf = Null\<rparr>"
      "readNode fm 2 = Inr \<lparr>id_p = 2, isLeaf = False, keys = [20], children = [0, 1],
                                  values_p = None, nextLeaf = Null\<rparr>"
    by blast
  show ?thesis
    by (simp add: new0 p r range_db_def range_tree_def findLeafForKey_def findLeafForKey_loop_pos
          findChildIndex_eq nth_js_def del: puts.simps)
qed

text \<open>
  Claim C6, as the code has it, with order 4. The fifth insertion finds the leaf with the
  keys 5, 10, 15, 20 and 25 and splits it at \<open>mid = ceil (5 / 2) = 3\<close>: it writes the
  left leaf with the keys 5, 10 and 15 to the page of the old root and the right leaf with
  the keys 20 and 25 to a new page, and promotes 20, the fourth key. The new root holds
  exactly this key and has the two leaves as children.
\<close>

theorem five_keys_split:
  "(case newMiniDB None of
      Inl e \<Rightarrow> False
    | Inr db0 \<Rightarrow>
        (case puts 10 db0 [(5, ''a''), (10, ''b''), (15, ''c''), (20, ''d'')] of
           Some (Inr db4) \<Rightarrow>
             (case insertRecursive 10 (order db4) (fileManager db4) (rootPageId db4) 25 ''e'' of
                Some (Inr (res, fm')) \<Rightarrow>
                  res = Some \<lparr>promotedKey = 20, rightPageId = 1\<rparr>
                  \<and> readNode fm' 0
                      = Inr \<lparr>id_p = 0, isLeaf = True, keys = [5, 10, 15], children = [],
                             values_p = Some [''a'', ''b'', ''c''], nextLeaf = Value 1\<rparr>
                  \<and> readNode fm' 1
                      = Inr \<lparr>id_p = 1, isLeaf = True, keys = [20, 25], children = [],
                             values_p = Some [''d'', ''e''], nextLeaf = Null\<rparr>
              | _ \<Rightarrow> False)
             \<and> (case put 10 db4 25 ''e'' of
                  Some (Inr db5) \<Rightarrow>
                    order db5 = 4
                    \<and> readNode (fileManager db5) (rootPageId db5)
                        = Inr \<lparr>id_p = 2, isLeaf = False, keys = [20], children = [0, 1],
                               values_p = None, nextLeaf = Null\<rparr>
                | _ \<Rightarrow> False)
         | _ \<Rightarrow> False))"
proof -
  from four_puts obtain fm where
    p: "puts 10 \<lparr>rootPageId = 0, order = 4, fileManager =
             written (allocated fresh_store) \<lparr>id_p = 0, isLeaf = True, keys = [], children = [],
                     values_p = Some [], nextLeaf = Null\<rparr>\<rparr>
          [(5, ''a''), (10, ''b''), (15, ''c''), (20, ''d'')]
        = Some (Inr \<lparr>rootPageId = 0, order = 4, fileManager = fm\<rparr>)"
    and fm: "store_inv fm" "pageSize fm = 4096" "nextPageId fm = 1"
    and r: "readNode fm 0 = Inr \<lparr>id_p = 0, isLeaf = True, keys = [5, 10, 15, 20], children = [],
                                  values_p = Some [''a'', ''b'', ''c'', ''d''], nextLeaf = Null\<rparr>"
    by blast
  show ?thesis
    by (simp add: new0 p fm r exec numeral_2_eq_2[symmetric] del: puts.simps)
qed

text \<open>
  Claim C6 as stated fails: the key of the root is 20, not 15, and \<^verbatim>\<open>get(15)\<close> throws
  the error of an empty page.
\<close>

theorem five_keys_counterexample:
  "session_root None 10 [(5, ''a''), (10, ''b''), (15, ''c''), (20, ''d''), (25, ''e'')]
     = Some (Inr \<lparr>id_p = 2, isLeaf = False, keys = [20], children = [0, 1],
                   values_p = None, nextLeaf = Null\<rparr>)
   \<and> session_get None 10 [(5, ''a''), (10, ''b''), (15, ''c''), (20, ''d''), (25, ''e'')] 15
     = Some (Inl EmptyPage)"
proof -
  from five_puts obtain fm where
    p: "puts 10 \<lparr>rootPageId = 0, order = 4, fileManager =
             written (allocated fresh_store) \<lparr>id_p = 0, isLeaf = True, keys = [], children = [],
                     values_p = Some [], nextLeaf = Null\<rparr>\<rparr>
          [(5, ''a''), (10, ''b''), (15, ''c''), (20, ''d''), (25, ''e'')]
        = Some (Inr \<lparr>rootPageId = 2, order = 4, fileManager = fm\<rparr>)"
    and r: "readNode fm 0 = Inl EmptyPage"
      "readNode fm 1 = Inr \<lparr>id_p = 1, isLeaf = True, keys = [20, 25], children = [],
                                  values_p = Some [''d'', ''e''], nextLeaf = Null\<rparr>"
      "readNode fm 2 = Inr \<lparr>id_p = 2, isLeaf = False, keys = [20], children = [0, 1],
                                  values_p = None, nextLeaf = Null\<rparr>"
    by blast
  show ?thesis
    using r
    by (simp add: session_root_def session_get_def session_def new0 p get_def search_def
          searchRecursive_pos findChildIndex_eq nth_js_def del: puts.simps)
qed

end
